theory Spec2Isabelle
  imports Main
begin

unbundle bit_operations_syntax

section \<open>Python primitives used by bitdt.py\<close>

text \<open>
  Python integers are unbounded and are modelled by \<open>int\<close>.  A Python \<open>str\<close> is
  modelled by \<open>string\<close>, one \<open>char\<close> per character, restricted to the ASCII range in
  which every alphabet of the program lives.  An operation that raises in Python returns
  \<open>Inl\<close> of the exception class; a normal result is \<open>Inr\<close>.
\<close>

datatype error = ValueError | IndexError

definition ebind :: "error + 'a \<Rightarrow> ('a \<Rightarrow> error + 'b) \<Rightarrow> error + 'b" where
  "ebind m f = (case m of Inl e \<Rightarrow> Inl e | Inr x \<Rightarrow> f x)"

text \<open>\<open>s[i]\<close>: a negative index counts from the end, an index out of range raises.\<close>

definition py_index :: "string \<Rightarrow> int \<Rightarrow> error + char" where
  "py_index s i =
     (let n = int (length s); j = (if i < 0 then n + i else i)
      in if 0 \<le> j \<and> j < n then Inr (s ! nat j) else Inl IndexError)"

text \<open>\<open>s[a:b]\<close> for bounds \<open>0 \<le> a\<close>, \<open>0 \<le> b\<close>: never raises, clips at the end.\<close>

definition py_slice :: "string \<Rightarrow> nat \<Rightarrow> nat \<Rightarrow> string" where
  "py_slice s a b = take (b - a) (drop a s)"

text \<open>\<open>s.find(c)\<close> for a one-character \<open>c\<close>: the first index of \<open>c\<close>, or \<open>-1\<close>.\<close>

primrec py_find :: "string \<Rightarrow> char \<Rightarrow> int" where
  "py_find [] c = -1"
| "py_find (x # xs) c =
     (if x = c then 0 else (let r = py_find xs c in if r = -1 then -1 else r + 1))"

text \<open>
  The built-in \<open>int(text, base)\<close> for \<open>2 \<le> base \<le> 36\<close>, after CPython's
  \<open>PyLong_FromString\<close>: surrounding white space is skipped, one sign is allowed, the
  prefixes \<open>0x\<close>, \<open>0o\<close>, \<open>0b\<close> are accepted for the bases 16, 8 and 2, single underscores
  may separate digits, letters count as digits in either case, and anything else raises
  ValueError.  When the base is not a power of two (CPython tests
  \<open>(base & (base - 1)) == 0\<close>), a text of more than \<open>sys.get_int_max_str_digits()\<close>
  digits raises ValueError as well; the limit is 4300 unless the interpreter has been
  reconfigured, and the program never reconfigures it.  On text outside the ASCII range
  \<open>int\<close> also strips Unicode white space and reads Unicode decimal digits; the model
  covers ASCII text, which is all the encoders of the program emit.
\<close>

definition INT_MAX_STR_DIGITS :: nat where
  "INT_MAX_STR_DIGITS = 4300"

definition power_of_two_base :: "int \<Rightarrow> bool" where
  "power_of_two_base base = (base AND (base - 1) = 0)"

definition py_isspace :: "char \<Rightarrow> bool" where
  "py_isspace c = (c \<in> set [CHR 0x09, CHR 0x0A, CHR 0x0B, CHR 0x0C, CHR 0x0D, CHR 0x20])"

definition digit_value :: "char \<Rightarrow> int" where
  "digit_value c =
     (let k = (of_char c :: int)
      in if 48 \<le> k \<and> k \<le> 57 then k - 48
         else if 97 \<le> k \<and> k \<le> 122 then k - 87
         else if 65 \<le> k \<and> k \<le> 90 then k - 55
         else 37)"

fun scan_digits :: "int \<Rightarrow> string \<Rightarrow> int \<Rightarrow> nat \<Rightarrow> char \<Rightarrow> error + (int \<times> nat \<times> string)" where
  "scan_digits base [] acc cnt prev =
     (if prev = CHR ''_'' then Inl ValueError else Inr (acc, cnt, []))"
| "scan_digits base (c # cs) acc cnt prev =
     (if c = CHR ''_''
      then (if prev = CHR ''_'' then Inl ValueError else scan_digits base cs acc cnt c)
      else if digit_value c < base
      then scan_digits base cs (acc * base + digit_value c) (cnt + 1) c
      else (if prev = CHR ''_'' then Inl ValueError else Inr (acc, cnt, c # cs)))"

definition strip_base_prefix :: "int \<Rightarrow> string \<Rightarrow> string" where
  "strip_base_prefix base s =
     (case s of
        c0 # c1 # r \<Rightarrow>
          if c0 = CHR ''0'' \<and>
             ((base = 16 \<and> (c1 = CHR ''x'' \<or> c1 = CHR ''X'')) \<or>
              (base = 8 \<and> (c1 = CHR ''o'' \<or> c1 = CHR ''O'')) \<or>
              (base = 2 \<and> (c1 = CHR ''b'' \<or> c1 = CHR ''B'')))
          then (case r of u # r' \<Rightarrow> if u = CHR ''_'' then r' else r | [] \<Rightarrow> r)
          else s
      | _ \<Rightarrow> s)"

definition strip_sign :: "string \<Rightarrow> int \<times> string" where
  "strip_sign s =
     (case s of
        c # r \<Rightarrow> if c = CHR ''+'' then (1, r) else if c = CHR ''-'' then (-1, r) else (1, s)
      | [] \<Rightarrow> (1, s))"

definition py_int :: "string \<Rightarrow> int \<Rightarrow> error + int" where
  "py_int text base =
     (if base < 2 \<or> base > 36 then Inl ValueError
      else
        let signed = strip_sign (dropWhile py_isspace text);
            body = strip_base_prefix base (snd signed)
        in if body \<noteq> [] \<and> hd body = CHR ''_'' then Inl ValueError
           else ebind (scan_digits base body 0 0 (CHR 0x00)) (\<lambda>(v, cnt, rest).
                  if cnt = 0 then Inl ValueError
                  else if \<not> power_of_two_base base \<and> cnt > INT_MAX_STR_DIGITS
                  then Inl ValueError
                  else if dropWhile py_isspace rest \<noteq> [] then Inl ValueError
                  else Inr (fst signed * v)))"

text \<open>
  \<open>int(a / b)\<close> for \<open>b > 0\<close>: true division followed by truncation toward zero.  The
  program applies it to fewer than five decimal digits, where the float quotient
  truncates to the same integer as the exact one.
\<close>

definition py_int_of_quotient :: "int \<Rightarrow> int \<Rightarrow> int" where
  "py_int_of_quotient a b = (if a < 0 then - ((- a) div b) else a div b)"

text \<open>The format \<open>{n:02d}\<close> for \<open>n \<ge> 0\<close>: decimal digits, zero-padded to width 2.\<close>

fun decimal_digits :: "nat \<Rightarrow> string" where
  "decimal_digits n =
     (if n < 10 then [char_of (48 + n)]
      else decimal_digits (n div 10) @ [char_of (48 + n mod 10)])"

definition format_02d :: "int \<Rightarrow> string" where
  "format_02d n =
     (let d = decimal_digits (nat n) in replicate (2 - length d) (CHR ''0'') @ d)"

text \<open>
  \<open>str.upper()\<close> on ASCII text.  Outside ASCII \<open>str.upper()\<close> can map one character to
  several (U+00DF to \<open>SS\<close>); such text is outside the model.
\<close>

definition py_upper_char :: "char \<Rightarrow> char" where
  "py_upper_char c =
     (let k = (of_char c :: nat) in if 97 \<le> k \<and> k \<le> 122 then char_of (k - 32) else c)"

definition py_upper :: "string \<Rightarrow> string" where
  "py_upper s = map py_upper_char s"

section \<open>ThousandCounter\<close>

definition FIRST_CHAR :: string where
  "FIRST_CHAR = ''BCDFGHJKLNPQRSTVWXYZbcdfghjklnpqrstvwxyz''"

definition SECOND_CHAR :: string where
  "SECOND_CHAR = ''ABCDEFGHIJKLMNOPQRTUVWXYZ''"

definition encode_milliseconds :: "int \<Rightarrow> error + string" where
  "encode_milliseconds millis =
     (if millis < 0 \<or> millis > 999 then Inl ValueError
      else
        let first_index = millis div 25;
            second_index = millis mod 25
        in if first_index < 0 \<or> first_index \<ge> int (length FIRST_CHAR) \<or>
              second_index < 0 \<or> second_index \<ge> int (length SECOND_CHAR)
           then Inl ValueError
           else ebind (py_index FIRST_CHAR first_index) (\<lambda>c1.
                ebind (py_index SECOND_CHAR second_index) (\<lambda>c2.
                Inr [c1, c2])))"

definition decode_milliseconds :: "string \<Rightarrow> error + int" where
  "decode_milliseconds code =
     (if code = [] \<or> length code \<noteq> 2 then Inr (-1)
      else
        ebind (py_index code 0) (\<lambda>c0.
        ebind (py_index code 1) (\<lambda>c1.
          let first_index = py_find FIRST_CHAR c0;
              second_index = py_find SECOND_CHAR c1
          in if first_index = -1 \<or> second_index = -1 then Inr (-1)
             else Inr (first_index * 25 + second_index))))"

section \<open>BitDT: constants and the value object\<close>

definition MONTHS :: string where
  "MONTHS = ''ABCDEFGHIJKL''"

definition DAYS :: string where
  "DAYS = ''ABCDEFGHIJKLMNOPQRSTUVWXYZ12345''"

definition HOURS :: string where
  "HOURS = ''BCDEFGHJKLMNOPQRSTUVWXYZ''"

definition MINUTES :: string where
  "MINUTES = ''ABCDEFGHIJKLMNOPQRSTUVWXYZabcdefghijklmnopqrstuvwxyz12345678''"

definition YEAR_CHARS :: string where
  "YEAR_CHARS = ''ABCDEFGHIJKLMNOPQRSTUVWXYZabcdefghijklmnopqrstuvwxyz123456789''"

definition UTC_PLUS :: char where
  "UTC_PLUS = CHR ''+''"

definition UTC_MINUS :: char where
  "UTC_MINUS = CHR ''-''"

definition TIMEZONE_DIGITS :: string where
  "TIMEZONE_DIGITS = ''0123456789''"

definition YEAR_MASK :: int where
  "YEAR_MASK = 0xFFFFF00000000000"

definition MONTH_MASK :: int where
  "MONTH_MASK = 0x00000F0000000000"

definition DAY_MASK :: int where
  "DAY_MASK = 0x000000F800000000"

definition HOUR_MASK :: int where
  "HOUR_MASK = 0x00000007C0000000"

definition MINUTE_MASK :: int where
  "MINUTE_MASK = 0x000000003F000000"

definition SECOND_MASK :: int where
  "SECOND_MASK = 0x0000000000FC0000"

definition MILLIS_MASK :: int where
  "MILLIS_MASK = 0x000000000003FF00"

definition TYPE_EMPTY :: int where
  "TYPE_EMPTY = 0"

definition TYPE_FULL :: int where
  "TYPE_FULL = 1"

definition TYPE_DATE_ONLY :: int where
  "TYPE_DATE_ONLY = 2"

definition TYPE_TIME_ONLY :: int where
  "TYPE_TIME_ONLY = 3"

definition TYPE_DATE_HOUR :: int where
  "TYPE_DATE_HOUR = 4"

definition EMPTY_VALUE :: int where
  "EMPTY_VALUE = TYPE_EMPTY"

text \<open>The three private attributes set by \<open>__init__\<close>.\<close>

record BitDT =
  packed_value :: int
  timezone_offset :: int
  date_type :: int

definition determine_date_type :: "int \<Rightarrow> int \<Rightarrow> int \<Rightarrow> int \<Rightarrow> int \<Rightarrow> int \<Rightarrow> int \<Rightarrow> int" where
  "determine_date_type year month day hour minute second millis =
     (if year = 0 \<and> month = 0 \<and> day = 0 \<and> hour = 0 \<and> minute = 0 \<and> second = 0 \<and> millis = 0
      then TYPE_EMPTY
      else if hour = 0 \<and> minute = 0 \<and> second = 0 \<and> millis = 0 then TYPE_DATE_ONLY
      else if year = 0 \<and> month = 0 \<and> day = 0 then TYPE_TIME_ONLY
      else if minute = 0 \<and> second = 0 \<and> millis = 0 \<and> hour \<noteq> 0 then TYPE_DATE_HOUR
      else TYPE_FULL)"

definition create_empty :: BitDT where
  "create_empty = \<lparr>packed_value = EMPTY_VALUE, timezone_offset = 0, date_type = TYPE_EMPTY\<rparr>"

definition get_year :: "BitDT \<Rightarrow> int" where
  "get_year self =
     (if date_type self = TYPE_EMPTY \<or> date_type self = TYPE_TIME_ONLY then -1
      else drop_bit 44 (packed_value self AND YEAR_MASK))"

definition get_month :: "BitDT \<Rightarrow> int" where
  "get_month self =
     (if date_type self = TYPE_EMPTY \<or> date_type self = TYPE_TIME_ONLY then -1
      else drop_bit 40 (packed_value self AND MONTH_MASK))"

definition get_day :: "BitDT \<Rightarrow> int" where
  "get_day self =
     (if date_type self = TYPE_EMPTY \<or> date_type self = TYPE_TIME_ONLY then -1
      else drop_bit 35 (packed_value self AND DAY_MASK))"

definition get_hour :: "BitDT \<Rightarrow> int" where
  "get_hour self =
     (if date_type self = TYPE_EMPTY \<or> date_type self = TYPE_DATE_ONLY then -1
      else drop_bit 30 (packed_value self AND HOUR_MASK))"

definition get_minute :: "BitDT \<Rightarrow> int" where
  "get_minute self =
     (if date_type self = TYPE_EMPTY \<or> date_type self = TYPE_DATE_ONLY then -1
      else if date_type self = TYPE_DATE_HOUR then 0
      else drop_bit 24 (packed_value self AND MINUTE_MASK))"

definition get_second :: "BitDT \<Rightarrow> int" where
  "get_second self =
     (if date_type self = TYPE_EMPTY \<or> date_type self = TYPE_DATE_ONLY then -1
      else if date_type self = TYPE_DATE_HOUR then 0
      else drop_bit 18 (packed_value self AND SECOND_MASK))"

definition get_millis :: "BitDT \<Rightarrow> int" where
  "get_millis self =
     (if date_type self = TYPE_EMPTY \<or> date_type self = TYPE_DATE_ONLY then -1
      else if date_type self = TYPE_DATE_HOUR then 0
      else drop_bit 8 (packed_value self AND MILLIS_MASK))"

definition get_date_type :: "BitDT \<Rightarrow> int" where
  "get_date_type self = date_type self"

definition is_empty :: "BitDT \<Rightarrow> bool" where
  "is_empty self = (date_type self = TYPE_EMPTY)"

definition compare_to :: "BitDT \<Rightarrow> BitDT \<Rightarrow> int" where
  "compare_to self other =
     (if packed_value self < packed_value other then -1
      else if packed_value self > packed_value other then 1
      else 0)"

text \<open>\<open>__eq__\<close> on two BitDT objects: the packed value and the offset, not the tag.\<close>

definition bitdt_eq :: "BitDT \<Rightarrow> BitDT \<Rightarrow> bool" where
  "bitdt_eq self other =
     (packed_value self = packed_value other \<and> timezone_offset self = timezone_offset other)"

section \<open>BitDT: timezone offsets and construction\<close>

text \<open>
  \<open>_parse_timezone_offset\<close>.  Every \<open>int(...)\<close> sits inside \<open>try ... except ValueError\<close>,
  which returns 0; the read \<open>timezone[3]\<close> is guarded by \<open>len(timezone) == 6\<close> in the same
  condition.
\<close>

definition parse_timezone_offset :: "string option \<Rightarrow> int" where
  "parse_timezone_offset timezone =
     (case timezone of
        None \<Rightarrow> 0
      | Some tz \<Rightarrow>
          if tz = [] then 0
          else if tz = ''+'' \<or> tz = ''-'' then 0
          else
            (case
               (if length tz = 3
                then ebind (py_int (py_slice tz 1 3) 10) (\<lambda>hours. Inr (hours, 0))
                else if length tz = 5
                then ebind (py_int (py_slice tz 1 3) 10) (\<lambda>hours.
                     ebind (py_int (py_slice tz 3 5) 10) (\<lambda>minutes. Inr (hours, minutes)))
                else if length tz = 6 \<and> tz ! 3 = CHR '':''
                then ebind (py_int (py_slice tz 1 3) 10) (\<lambda>hours.
                     ebind (py_int (py_slice tz 4 6) 10) (\<lambda>minutes. Inr (hours, minutes)))
                else Inr (0, 0))
             of
               Inl e \<Rightarrow> 0
             | Inr (hours, minutes) \<Rightarrow>
                 let total_minutes = hours * 60 + minutes;
                     total_minutes = (if hd tz = CHR ''-'' then - total_minutes else total_minutes)
                 in py_int_of_quotient total_minutes 15))"

definition format_timezone_offset :: "int \<Rightarrow> string option" where
  "format_timezone_offset offset =
     (if offset = 0 then None
      else
        let total_minutes = offset * 15;
            hours = \<bar>total_minutes\<bar> div 60;
            minutes = \<bar>total_minutes\<bar> mod 60;
            sign = (if total_minutes \<ge> 0 then ''+'' else ''-'')
        in if minutes = 0 then Some (sign @ format_02d hours)
           else Some (sign @ format_02d hours @ format_02d minutes))"

definition get_timezone :: "BitDT \<Rightarrow> string option" where
  "get_timezone self = format_timezone_offset (timezone_offset self)"

definition from_primitives ::
  "int \<Rightarrow> int \<Rightarrow> int \<Rightarrow> int \<Rightarrow> int \<Rightarrow> int \<Rightarrow> int \<Rightarrow> string option \<Rightarrow> BitDT" where
  "from_primitives year month day hour minute second millis timezone =
     (let dt = determine_date_type year month day hour minute second millis;
          packed = (push_bit 44 year OR push_bit 40 month OR push_bit 35 day OR
                    push_bit 30 hour OR push_bit 24 minute OR push_bit 18 second OR
                    push_bit 8 millis OR dt);
          tz_offset = parse_timezone_offset timezone
      in \<lparr>packed_value = packed, timezone_offset = tz_offset, date_type = dt\<rparr>)"

section \<open>BitDT: year codec and zero-run compression\<close>

definition encode_year :: "int \<Rightarrow> error + string" where
  "encode_year year =
     (if year < 0 \<or> year \<ge> 226981 then Inl ValueError
      else ebind (py_index YEAR_CHARS (year div (61 * 61))) (\<lambda>c1.
           ebind (py_index YEAR_CHARS ((year div 61) mod 61)) (\<lambda>c2.
           ebind (py_index YEAR_CHARS (year mod 61)) (\<lambda>c3.
           Inr [c1, c2, c3]))))"

definition decode_year :: "string \<Rightarrow> error + int" where
  "decode_year year_code =
     (if year_code = [] \<or> length year_code \<noteq> 3 then Inr (-1)
      else ebind (py_index year_code 0) (\<lambda>y0.
           ebind (py_index year_code 1) (\<lambda>y1.
           ebind (py_index year_code 2) (\<lambda>y2.
             let idx1 = py_find YEAR_CHARS y0;
                 idx2 = py_find YEAR_CHARS y1;
                 idx3 = py_find YEAR_CHARS y2
             in if idx1 = -1 \<or> idx2 = -1 \<or> idx3 = -1 then Inr (-1)
                else Inr (idx1 * 61 * 61 + idx2 * 61 + idx3)))))"

definition to_absolute_year :: "int \<Rightarrow> int" where
  "to_absolute_year relative_year = relative_year - 50000"

definition from_absolute_year :: "int \<Rightarrow> int" where
  "from_absolute_year absolute_year = absolute_year + 50000"

definition encode_zero_run :: "nat \<Rightarrow> string" where
  "encode_zero_run zero_count =
     (if zero_count = 1 then ''0''
      else if zero_count = 2 then ''.''
      else if zero_count = 3 then '':''
      else if zero_count = 4 then '';''
      else if zero_count = 5 then ''?''
      else if zero_count = 6 then ''!''
      else if zero_count = 7 then ''&''
      else ''&'' @ replicate (zero_count - 7) (CHR ''0''))"

text \<open>
  The \<open>for\<close> loop of \<open>_compress_zeros\<close>: the state is the output built so far and the
  length of the zero run being read.
\<close>

fun compress_loop :: "string \<Rightarrow> string \<Rightarrow> nat \<Rightarrow> string \<times> nat" where
  "compress_loop [] compressed zero_count = (compressed, zero_count)"
| "compress_loop (c # rest) compressed zero_count =
     (if c = CHR ''0'' then compress_loop rest compressed (zero_count + 1)
      else compress_loop rest
             ((if zero_count > 0 then compressed @ encode_zero_run zero_count else compressed)
                @ [c]) 0)"

definition compress_zeros :: "string \<Rightarrow> string" where
  "compress_zeros text =
     (case compress_loop text [] 0 of
        (compressed, zero_count) \<Rightarrow>
          if zero_count > 0 then compressed @ encode_zero_run zero_count else compressed)"

definition expand_char :: "char \<Rightarrow> string" where
  "expand_char c =
     (if c = CHR ''0'' then ''0''
      else if c = CHR ''.'' then ''00''
      else if c = CHR '':'' then ''000''
      else if c = CHR '';'' then ''0000''
      else if c = CHR ''?'' then ''00000''
      else if c = CHR ''!'' then ''000000''
      else if c = CHR ''&'' then ''0000000''
      else [c])"

definition expand_zeros :: "string \<Rightarrow> string" where
  "expand_zeros compressed = concat (map expand_char compressed)"

text \<open>The output of the compressor once a pending zero run is written out.\<close>

definition flush_run :: "string \<times> nat \<Rightarrow> string" where
  "flush_run st =
     (if snd st > 0 then fst st @ encode_zero_run (snd st) else fst st)"

section \<open>BitDT: the timezone affix\<close>

definition is_valid_timezone :: "string \<Rightarrow> error + bool" where
  "is_valid_timezone timezone =
     (if timezone = [] \<or> length timezone < 2 then Inr False
      else ebind (py_index timezone 0) (\<lambda>sign.
           if sign \<notin> set [UTC_PLUS, UTC_MINUS] then Inr False
           else
             let digits = drop 1 timezone
             in if digits = [] then Inr True
                else if \<not> list_all (\<lambda>c. c \<in> set TIMEZONE_DIGITS) digits then Inr False
                else Inr (length digits = 2 \<or> length digits = 4)))"

text \<open>
  The loop \<open>for i in range(len(bit_dt) - 1, -1, -1)\<close> of \<open>_parse_timezone\<close>:
  \<open>scan_timezone bit_dt n\<close> visits the indices \<open>n - 1\<close> down to \<open>0\<close>.
\<close>

fun scan_timezone :: "string \<Rightarrow> nat \<Rightarrow> error + string option" where
  "scan_timezone bit_dt 0 = Inr None"
| "scan_timezone bit_dt (Suc i) =
     ebind (py_index bit_dt (int i)) (\<lambda>c.
       if c \<in> set [UTC_PLUS, UTC_MINUS]
       then (let timezone_part = drop i bit_dt
             in ebind (is_valid_timezone timezone_part) (\<lambda>ok.
                  if ok then Inr (Some timezone_part) else scan_timezone bit_dt i))
       else scan_timezone bit_dt i)"

definition parse_timezone :: "string option \<Rightarrow> error + string option" where
  "parse_timezone bit_dt =
     (case bit_dt of
        None \<Rightarrow> Inr None
      | Some s \<Rightarrow>
          if s = [] \<or> length s < 2 then Inr None
          else ebind (py_index s (-1)) (\<lambda>last_char.
               if last_char \<in> set [UTC_PLUS, UTC_MINUS] then Inr (Some [last_char])
               else scan_timezone s (length s)))"

definition extract_datetime_part :: "string option \<Rightarrow> error + string option" where
  "extract_datetime_part bit_dt =
     (case bit_dt of
        None \<Rightarrow> Inr None
      | Some s \<Rightarrow>
          ebind (parse_timezone bit_dt) (\<lambda>timezone.
            case timezone of
              None \<Rightarrow> Inr (Some s)
            | Some tz \<Rightarrow>
                if tz \<noteq> [] then Inr (Some (py_slice s 0 (length s - length tz)))
                else Inr (Some s)))"

section \<open>BitDT: encode\<close>

text \<open>
  In \<open>encode_date_time\<close> the blocks for month, hour, minute and second are the same code
  over four alphabets; \<open>encode_symbol\<close> is that block.  The day block indexes from 1.
\<close>

definition encode_symbol :: "string \<Rightarrow> int option \<Rightarrow> error + char" where
  "encode_symbol alphabet v =
     (case v of
        None \<Rightarrow> Inr (CHR ''0'')
      | Some x \<Rightarrow>
          if x \<ge> 0
          then (if x < 0 \<or> x \<ge> int (length alphabet) then Inl ValueError
                else py_index alphabet x)
          else Inr (CHR ''0''))"

definition encode_day_symbol :: "int option \<Rightarrow> error + char" where
  "encode_day_symbol v =
     (case v of
        None \<Rightarrow> Inr (CHR ''0'')
      | Some day \<Rightarrow>
          if day \<ge> 1
          then (if day < 1 \<or> day > int (length DAYS) then Inl ValueError
                else py_index DAYS (day - 1))
          else Inr (CHR ''0''))"

definition encode_year_code :: "int option \<Rightarrow> error + string" where
  "encode_year_code v =
     (case v of
        None \<Rightarrow> Inr ''0''
      | Some year \<Rightarrow> if year \<ge> 0 then encode_year year else Inr ''0'')"

definition encode_millis_code :: "int option \<Rightarrow> error + string" where
  "encode_millis_code v =
     (case v of
        None \<Rightarrow> Inr ''0''
      | Some millis \<Rightarrow>
          if millis \<ge> 0
          then (if millis = 0 then Inr ''0'' else encode_milliseconds millis)
          else Inr ''0'')"

text \<open>The whole body runs under \<open>try ... except Exception: return "&"\<close>.\<close>

definition encode_date_time ::
  "int option \<Rightarrow> int option \<Rightarrow> int option \<Rightarrow> int option \<Rightarrow> int option \<Rightarrow> int option \<Rightarrow>
   int option \<Rightarrow> string option \<Rightarrow> string" where
  "encode_date_time year month day hour minute second millis timezone =
     (case
        ebind (encode_year_code year) (\<lambda>year_code.
        ebind (encode_symbol MONTHS month) (\<lambda>month_char.
        ebind (encode_day_symbol day) (\<lambda>day_char.
        ebind (encode_symbol HOURS hour) (\<lambda>hour_char.
        ebind (encode_symbol MINUTES minute) (\<lambda>minute_char.
        ebind (encode_symbol MINUTES second) (\<lambda>second_char.
        ebind (encode_millis_code millis) (\<lambda>millis_code.
          let uncompressed = year_code @ [month_char, day_char, hour_char, minute_char,
                                          second_char] @ millis_code;
              date_time_part = compress_zeros uncompressed
          in (case timezone of
                None \<Rightarrow> Inr date_time_part
              | Some tz \<Rightarrow> if tz \<noteq> [] then Inr (date_time_part @ tz)
                           else Inr date_time_part))))))))
      of
        Inl e \<Rightarrow> ''&''
      | Inr text \<Rightarrow> text)"

definition none_if_absent :: "int \<Rightarrow> int option" where
  "none_if_absent v = (if v = -1 then None else Some v)"

definition encode :: "BitDT \<Rightarrow> string" where
  "encode self =
     (if is_empty self then ''&''
      else
        let year = get_year self; month = get_month self; day = get_day self;
            hour = get_hour self; minute = get_minute self; second = get_second self;
            millis = get_millis self; timezone = get_timezone self
        in (case
              (if date_type self = TYPE_DATE_ONLY
               then (year, month, day, -1, -1, -1, -1)
               else if date_type self = TYPE_TIME_ONLY
               then (-1, -1, -1, hour, minute, second, millis)
               else if date_type self = TYPE_DATE_HOUR
               then (year, month, day, hour, -1, -1, -1)
               else (year, month, day, hour, minute, second, millis))
            of (year, month, day, hour, minute, second, millis) \<Rightarrow>
              encode_date_time (none_if_absent year) (none_if_absent month)
                (none_if_absent day) (none_if_absent hour) (none_if_absent minute)
                (none_if_absent second) (none_if_absent millis) timezone))"

section \<open>BitDT: decode\<close>

text \<open>
  \<open>decode\<close> leaves its straight-line code in two ways: an exception, or one of its many
  \<open>return cls.create_empty()\<close>.  Both are the left summand of the walk's result.
\<close>

datatype halt = Raise error | ReturnEmpty

definition hbind :: "halt + 'a \<Rightarrow> ('a \<Rightarrow> halt + 'b) \<Rightarrow> halt + 'b" where
  "hbind m f = (case m of Inl h \<Rightarrow> Inl h | Inr x \<Rightarrow> f x)"

definition raising :: "error + 'a \<Rightarrow> halt + 'a" where
  "raising m = (case m of Inl e \<Rightarrow> Inl (Raise e) | Inr x \<Rightarrow> Inr x)"

definition is_valid_encoded_char :: "char \<Rightarrow> bool" where
  "is_valid_encoded_char c =
     (c \<in> set YEAR_CHARS \<or> c \<in> set MONTHS \<or> c \<in> set DAYS \<or> c \<in> set HOURS \<or>
      c \<in> set MINUTES \<or> c \<in> set ''0.:;?!&'')"

text \<open>Each field block of the walk maps the position to the field value and the new position.\<close>

definition decode_year_field :: "string \<Rightarrow> nat \<Rightarrow> halt + (int \<times> nat)" where
  "decode_year_field expanded pos =
     (if pos < length expanded
      then hbind (raising (py_index expanded (int pos))) (\<lambda>c.
             if c = CHR ''0'' then Inr (-1, pos + 1)
             else if pos + 2 < length expanded
             then hbind (raising (decode_year (py_slice expanded pos (pos + 3)))) (\<lambda>year.
                    if year = -1 then Inl ReturnEmpty else Inr (year, pos + 3))
             else Inl ReturnEmpty)
      else Inr (-1, pos))"

text \<open>The blocks for month, hour, minute and second: the same code over four alphabets.\<close>

definition decode_symbol :: "string \<Rightarrow> string \<Rightarrow> nat \<Rightarrow> halt + (int \<times> nat)" where
  "decode_symbol alphabet expanded pos =
     (if pos < length expanded
      then hbind (raising (py_index expanded (int pos))) (\<lambda>c.
             if c = CHR ''0'' then Inr (-1, pos + 1)
             else
               let v = py_find alphabet c
               in if v = -1 then Inl ReturnEmpty else Inr (v, pos + 1))
      else Inr (-1, pos))"

definition decode_day_field :: "string \<Rightarrow> nat \<Rightarrow> halt + (int \<times> nat)" where
  "decode_day_field expanded pos =
     (if pos < length expanded
      then hbind (raising (py_index expanded (int pos))) (\<lambda>c.
             if c = CHR ''0'' then Inr (-1, pos + 1)
             else
               let day_idx = py_find DAYS c;
                   day = day_idx + 1
               in if day = 0 then Inl ReturnEmpty else Inr (day, pos + 1))
      else Inr (-1, pos))"

definition decode_millis_field :: "string \<Rightarrow> nat \<Rightarrow> halt + (int \<times> nat)" where
  "decode_millis_field expanded pos =
     (if pos < length expanded
      then hbind (raising (py_index expanded (int pos))) (\<lambda>c.
             if c = CHR ''0'' then Inr (0, pos + 1)
             else if pos + 1 < length expanded
             then hbind (raising (decode_milliseconds (py_slice expanded pos (pos + 2))))
                    (\<lambda>millis. if millis = -1 then Inl ReturnEmpty else Inr (millis, pos + 2))
             else Inl ReturnEmpty)
      else Inr (-1, pos))"

definition absent_as_zero :: "int \<Rightarrow> int" where
  "absent_as_zero v = (if v \<noteq> -1 then v else 0)"

definition decode_fields :: "string \<Rightarrow> string option \<Rightarrow> halt + BitDT" where
  "decode_fields expanded timezone_str =
     hbind (decode_year_field expanded 0) (\<lambda>(year, pos).
     hbind (decode_symbol MONTHS expanded pos) (\<lambda>(month, pos).
     hbind (decode_day_field expanded pos) (\<lambda>(day, pos).
     hbind (decode_symbol HOURS expanded pos) (\<lambda>(hour, pos).
     hbind (decode_symbol MINUTES expanded pos) (\<lambda>(minute, pos).
     hbind (decode_symbol MINUTES expanded pos) (\<lambda>(second, pos).
     hbind (decode_millis_field expanded pos) (\<lambda>(millis, pos).
       if list_all (\<lambda>x. x = -1) [year, month, day, hour, minute, second, millis]
       then Inl ReturnEmpty
       else Inr (from_primitives (absent_as_zero year) (absent_as_zero month)
                   (absent_as_zero day) (absent_as_zero hour) (absent_as_zero minute)
                   (absent_as_zero second) (absent_as_zero millis) timezone_str))))))))"

definition decode_body :: "string option \<Rightarrow> halt + BitDT" where
  "decode_body bit_dt =
     hbind (raising (parse_timezone bit_dt)) (\<lambda>timezone_str.
     hbind (raising (extract_datetime_part bit_dt)) (\<lambda>part.
       case part of
         None \<Rightarrow> Inl ReturnEmpty
       | Some date_time_part \<Rightarrow>
           if date_time_part = [] then Inl ReturnEmpty
           else hbind (raising (py_index date_time_part 0)) (\<lambda>first.
             if first \<noteq> CHR ''0'' \<and> length date_time_part < 3 then Inl ReturnEmpty
             else
               let expanded = expand_zeros date_time_part
               in if length expanded < 7 then Inl ReturnEmpty
                  else if \<not> list_all is_valid_encoded_char expanded then Inl ReturnEmpty
                  else decode_fields expanded timezone_str)))"

definition decode :: "string option \<Rightarrow> error + BitDT" where
  "decode bit_dt =
     (case bit_dt of
        None \<Rightarrow> Inr create_empty
      | Some s \<Rightarrow>
          (case decode_body bit_dt of
             Inl (Raise e) \<Rightarrow> Inl e
           | Inl ReturnEmpty \<Rightarrow> Inr create_empty
           | Inr dt \<Rightarrow> Inr dt))"

text \<open>A walk result that is not an exception.\<close>

definition no_raise :: "halt + 'a \<Rightarrow> bool" where
  "no_raise m = (case m of Inl (Raise e) \<Rightarrow> False | _ \<Rightarrow> True)"

section \<open>BitDTEpoch\<close>

definition MODE_AUTO :: int where
  "MODE_AUTO = 0"

definition MODE_BASE36 :: int where
  "MODE_BASE36 = 36"

definition MODE_FULL_BITDT :: int where
  "MODE_FULL_BITDT = -1"

definition BASE36_CHARS :: string where
  "BASE36_CHARS = ''0123456789ABCDEFGHIJKLMNOPQRSTUVWXYZ''"

text \<open>
  The \<open>while num > 0\<close> loop of \<open>_encode_base\<close>.  The program reaches \<open>_encode_base\<close> only
  with \<open>2 \<le> base \<le> 36\<close> (the guard of \<open>to_bit_dt\<close>) or with base 36 (from
  \<open>_to_smart_bit_dt\<close>); the loop of the model stops at once for a base below 2, which is
  never passed.
\<close>

function encode_base_loop :: "int \<Rightarrow> int \<Rightarrow> string \<Rightarrow> error + string" where
  "encode_base_loop num base result =
     (if num > 0 \<and> 2 \<le> base
      then ebind (py_index BASE36_CHARS (num mod base)) (\<lambda>c.
             encode_base_loop (num div base) base (result @ [c]))
      else Inr result)"
  by pat_completeness auto
termination
proof (relation "measure (\<lambda>(num, base, result). nat num)")
  show "wf (measure (\<lambda>(num, base, result). nat num))" by simp
next
  fix num base :: int and result :: string and c :: char
  assume "0 < num \<and> 2 \<le> base"
  then have "0 < num" and "2 \<le> base" by simp_all
  then have "num div base < num" by (simp add: int_div_less_self)
  then show "((num div base, base, result @ [c]), (num, base, result))
                     \<in> measure (\<lambda>(num, base, result). nat num)"
    using \<open>0 < num\<close> by simp
qed

definition encode_base :: "int \<Rightarrow> int \<Rightarrow> error + string" where
  "encode_base num base =
     (if num = 0 then Inr ''0''
      else
        let sign = (if num < 0 then ''-'' else []);
            num = (if num < 0 then - num else num)
        in ebind (encode_base_loop num base []) (\<lambda>result. Inr (sign @ rev result)))"

text \<open>
  \<open>_to_full_bit_dt\<close> converts through the \<open>datetime\<close> library; the model takes it as the
  parameter \<open>to_full\<close>, whose \<open>Inl\<close> is an exception of that conversion.
\<close>

definition to_smart_bit_dt ::
  "(int \<Rightarrow> string option \<Rightarrow> error + string) \<Rightarrow> int \<Rightarrow> string option \<Rightarrow> error + string" where
  "to_smart_bit_dt to_full epoch_millis timezone =
     (if timezone = None \<or> timezone = Some ''UTC'' \<or> timezone = Some ''+00'' \<or>
         timezone = Some ''Z'' \<or> timezone = Some ''+0000''
      then encode_base epoch_millis MODE_BASE36
      else to_full epoch_millis timezone)"

definition to_bit_dt ::
  "(int \<Rightarrow> string option \<Rightarrow> error + string) \<Rightarrow> int \<Rightarrow> string option \<Rightarrow> int \<Rightarrow> string" where
  "to_bit_dt to_full epoch_millis timezone base =
     (case
        (if base = MODE_FULL_BITDT then to_full epoch_millis timezone
         else if base = MODE_AUTO then to_smart_bit_dt to_full epoch_millis timezone
         else if 2 \<le> base \<and> base \<le> 36 then encode_base epoch_millis base
         else to_smart_bit_dt to_full epoch_millis timezone)
      of
        Inl e \<Rightarrow> encode create_empty
      | Inr text \<Rightarrow> text)"

text \<open>
  \<open>_from_full_bit_dt\<close>.  Its calendar step (building the \<open>datetime\<close>, the clamping of an
  invalid day, the conversion to milliseconds) is the parameter \<open>to_epoch\<close>, whose \<open>Inl\<close>
  is an exception that the enclosing \<open>except Exception\<close> turns into \<open>-1\<close>; the year read
  from the system clock for a time-only value is the parameter \<open>current_year\<close>.
  \<open>epoch_of_bit_dt\<close> is the part of the function after the emptiness test.
\<close>

type_synonym calendar =
  "int \<Rightarrow> int \<Rightarrow> int \<Rightarrow> int \<Rightarrow> int \<Rightarrow> int \<Rightarrow> int \<Rightarrow> string option \<Rightarrow> error + int"

definition epoch_of_bit_dt :: "calendar \<Rightarrow> int \<Rightarrow> BitDT \<Rightarrow> error + int" where
  "epoch_of_bit_dt to_epoch current_year dt =
     (let year = get_year dt;
          year = (if year = -1 then from_absolute_year current_year else year);
          abs_year = to_absolute_year year;
          tz_str = get_timezone dt;
          month = (if get_month dt \<noteq> -1 then get_month dt + 1 else 1);
          day = (if get_day dt \<noteq> -1 then get_day dt else 1);
          hour = (if get_hour dt \<noteq> -1 then get_hour dt else 0);
          minute = (if get_minute dt \<noteq> -1 then get_minute dt else 0);
          second = (if get_second dt \<noteq> -1 then get_second dt else 0);
          millisecond = (if get_millis dt \<noteq> -1 then get_millis dt else 0)
      in to_epoch abs_year month day hour minute second millisecond tz_str)"

definition from_full_bit_dt :: "calendar \<Rightarrow> int \<Rightarrow> string \<Rightarrow> int" where
  "from_full_bit_dt to_epoch current_year bitdt =
     (case decode (Some bitdt) of
        Inl e \<Rightarrow> -1
      | Inr dt \<Rightarrow>
          if is_empty dt then -1
          else (case epoch_of_bit_dt to_epoch current_year dt of
                  Inl e \<Rightarrow> -1
                | Inr epoch_ms \<Rightarrow> epoch_ms))"

text \<open>The chained comparison \<open>lo <= c <= hi\<close> on one-character strings.\<close>

definition char_between :: "char \<Rightarrow> char \<Rightarrow> char \<Rightarrow> bool" where
  "char_between lo c hi =
     ((of_char lo :: nat) \<le> of_char c \<and> (of_char c :: nat) \<le> of_char hi)"

text \<open>
  The loop of \<open>_guess_most_likely_base\<close> over the upper-cased text; the state is
  \<open>(has_base36_only, has_base32_only, has_hex_only)\<close>.
\<close>

fun guess_loop :: "string \<Rightarrow> bool \<times> bool \<times> bool \<Rightarrow> bool \<times> bool \<times> bool" where
  "guess_loop [] flags = flags"
| "guess_loop (c # cs) (has_base36_only, has_base32_only, has_hex_only) =
     (if char_between (CHR ''G'') c (CHR ''Z'')
      then (if char_between (CHR ''W'') c (CHR ''Z'')
            then guess_loop cs (True, has_base32_only, False)
            else guess_loop cs (has_base36_only, True, False))
      else if char_between (CHR ''A'') c (CHR ''F'')
      then guess_loop cs (has_base36_only, has_base32_only, has_hex_only)
      else if char_between (CHR ''0'') c (CHR ''9'')
      then guess_loop cs (has_base36_only, has_base32_only, has_hex_only)
      else guess_loop cs (has_base36_only, has_base32_only, False))"

definition guess_most_likely_base :: "string \<Rightarrow> int" where
  "guess_most_likely_base encoded =
     (case guess_loop (py_upper encoded) (False, False, True) of
        (has_base36_only, has_base32_only, has_hex_only) \<Rightarrow>
          if has_hex_only then 16
          else if has_base36_only then 36
          else if has_base32_only then 32
          else 36)"

definition is_base_encoded :: "string \<Rightarrow> bool" where
  "is_base_encoded s =
     (if length s < 6 \<or> length s > 12 then False
      else list_all (\<lambda>c. c \<in> set BASE36_CHARS) (py_upper s))"

text \<open>
  The loop \<open>for base in [36, 32, 16, 10]\<close> of \<open>_decode_base_auto\<close>: \<open>None\<close> when every
  base was skipped or raised ValueError, which the loop catches; another exception leaves
  the loop.
\<close>

fun try_bases :: "string \<Rightarrow> int \<Rightarrow> int list \<Rightarrow> (error + int) option" where
  "try_bases encoded likely_base [] = None"
| "try_bases encoded likely_base (base # bases) =
     (if base = likely_base then try_bases encoded likely_base bases
      else (case py_int encoded base of
              Inr v \<Rightarrow> Some (Inr v)
            | Inl ValueError \<Rightarrow> try_bases encoded likely_base bases
            | Inl e \<Rightarrow> Some (Inl e)))"

definition decode_base_auto :: "calendar \<Rightarrow> int \<Rightarrow> string \<Rightarrow> error + int" where
  "decode_base_auto to_epoch current_year encoded =
     (let likely_base = guess_most_likely_base encoded
      in case py_int encoded likely_base of
           Inr v \<Rightarrow> Inr v
         | Inl IndexError \<Rightarrow> Inl IndexError
         | Inl ValueError \<Rightarrow>
             (case try_bases encoded likely_base [36, 32, 16, 10] of
                Some r \<Rightarrow> r
              | None \<Rightarrow> Inr (from_full_bit_dt to_epoch current_year encoded)))"

text \<open>
  \<open>from_bit_dt\<close>.  The clock may be read twice, by the first full decode and by the one
  at the end of \<open>_decode_base_auto\<close>: \<open>year_first\<close> and \<open>year_last\<close> are the two readings.
\<close>

definition from_bit_dt :: "calendar \<Rightarrow> int \<Rightarrow> int \<Rightarrow> string \<Rightarrow> int option \<Rightarrow> int" where
  "from_bit_dt to_epoch year_first year_last bitdt base =
     (if bitdt = [] then -1
      else
        (case
           (case base of
              Some b \<Rightarrow>
                if 2 \<le> b \<and> b \<le> 36 then py_int bitdt b
                else
                  let full_result = from_full_bit_dt to_epoch year_first bitdt
                  in if full_result \<noteq> -1 then Inr full_result
                     else if is_base_encoded bitdt
                     then decode_base_auto to_epoch year_last bitdt
                     else Inr (-1)
            | None \<Rightarrow>
                let full_result = from_full_bit_dt to_epoch year_first bitdt
                in if full_result \<noteq> -1 then Inr full_result
                   else if is_base_encoded bitdt
                   then decode_base_auto to_epoch year_last bitdt
                   else Inr (-1))
         of
           Inl e \<Rightarrow> -1
         | Inr v \<Rightarrow> v))"

section \<open>The properties under test, in the specification's words\<close>

text \<open>
  The valid component tuples of the round-trip and ordering properties: relative year in
  \<open>[0, 226980]\<close>, month \<open>0..11\<close>, day \<open>1..31\<close>, hour \<open>0..23\<close>, minute and second \<open>0..59\<close>,
  millisecond \<open>0..999\<close>.
\<close>

definition valid_components :: "int \<Rightarrow> int \<Rightarrow> int \<Rightarrow> int \<Rightarrow> int \<Rightarrow> int \<Rightarrow> int \<Rightarrow> bool" where
  "valid_components year month day hour minute second millis =
     (0 \<le> year \<and> year \<le> 226980 \<and> 0 \<le> month \<and> month \<le> 11 \<and> 1 \<le> day \<and> day \<le> 31 \<and>
      0 \<le> hour \<and> hour \<le> 23 \<and> 0 \<le> minute \<and> minute \<le> 59 \<and> 0 \<le> second \<and> second \<le> 59 \<and>
      0 \<le> millis \<and> millis \<le> 999)"

text \<open>Lexicographic comparison of two component tuples, as \<open>-1\<close>, \<open>0\<close> or \<open>1\<close>.\<close>

fun lex_compare :: "int list \<Rightarrow> int list \<Rightarrow> int" where
  "lex_compare (a # as) (b # bs) =
     (if a < b then -1 else if a > b then 1 else lex_compare as bs)"
| "lex_compare _ _ = 0"




text \<open>The five timezones of the round-trip property.\<close>

definition round_trip_timezones :: "string option list" where
  "round_trip_timezones = [None, Some ''+00'', Some ''-08'', Some ''+0530'', Some ''+12'']"


definition spec_numeral_shape :: "string \<Rightarrow> bool" where
  "spec_numeral_shape s =
     (6 \<le> length s \<and> length s \<le> 12 \<and>
      list_all (\<lambda>c. py_upper_char c \<in> set BASE36_CHARS) s)"





text \<open>
  Two calendars for closed instances.  \<open>no_calendar\<close> raises on every date; the numeral
  paths never consult it.  \<open>calendar_1969\<close> knows the one date 1969-12-31T23:59:59.999 UTC,
  for which the \<open>datetime\<close> library gives \<open>int(zdt.timestamp() * 1000) = -1\<close>, and raises
  elsewhere.  \<open>no_full_text\<close> is the matching stand-in for \<open>_to_full_bit_dt\<close>.
\<close>

definition no_calendar :: calendar where
  "no_calendar abs_year month day hour minute second millisecond tz_str = Inl ValueError"


definition no_full_text :: "int \<Rightarrow> string option \<Rightarrow> error + string" where
  "no_full_text epoch_millis timezone = Inl ValueError"

section \<open>Facts about the Python primitives\<close>

lemma ebind_Inr [simp]: "ebind (Inr x) f = f x"
  by (simp add: ebind_def)

lemma ebind_Inl [simp]: "ebind (Inl e) f = Inl e"
  by (simp add: ebind_def)

lemma py_index_nat:
  "i < length s \<Longrightarrow> py_index s (int i) = Inr (s ! i)"
  by (simp add: py_index_def)

lemma py_index_in_range:
  "0 \<le> i \<Longrightarrow> i < int (length s) \<Longrightarrow> py_index s i = Inr (s ! nat i)"
  by (simp add: py_index_def)

lemma py_find_range:
  "py_find xs c = -1 \<or> (0 \<le> py_find xs c \<and> py_find xs c < int (length xs))"
  by (induction xs) (auto simp: Let_def)

lemma py_find_ge: "-1 \<le> py_find xs c"
  using py_find_range [of xs c] by auto

lemma py_find_absent: "(py_find xs c = -1) = (c \<notin> set xs)"
proof (induction xs)
  case Nil
  show ?case by simp
next
  case (Cons x xs)
  have "py_find xs c + 1 \<noteq> -1"
    using py_find_ge [of xs c] by linarith
  with Cons show ?case by (auto simp: Let_def)
qed

lemma py_find_nth:
  "distinct xs \<Longrightarrow> i < length xs \<Longrightarrow> py_find xs (xs ! i) = int i"
proof (induction xs arbitrary: i)
  case Nil
  then show ?case by simp
next
  case (Cons x xs)
  show ?case
  proof (cases i)
    case 0
    then show ?thesis by simp
  next
    case (Suc j)
    with Cons.prems have j: "j < length xs" and nx: "x \<noteq> xs ! j" and d: "distinct xs"
      by auto
    from Cons.IH [OF d j] have "py_find xs (xs ! j) = int j" .
    with Suc nx show ?thesis by (simp add: Let_def)
  qed
qed

lemma py_find_hit:
  "c \<in> set xs \<Longrightarrow> xs ! nat (py_find xs c) = c"
proof (induction xs)
  case Nil
  then show ?case by simp
next
  case (Cons x xs)
  show ?case
  proof (cases "x = c")
    case True
    then show ?thesis by simp
  next
    case False
    with Cons.prems have in_xs: "c \<in> set xs" by simp
    then have ne: "py_find xs c \<noteq> -1" by (simp add: py_find_absent)
    with py_find_ge [of xs c] have nn: "0 \<le> py_find xs c" by linarith
    then have "nat (py_find xs c + 1) = Suc (nat (py_find xs c))" by linarith
    with False ne Cons.IH [OF in_xs] show ?thesis by (simp add: Let_def)
  qed
qed

section \<open>ThousandCounter: the two alphabets\<close>

lemma length_FIRST_CHAR: "length FIRST_CHAR = 40"
  by (simp add: FIRST_CHAR_def)

lemma length_SECOND_CHAR: "length SECOND_CHAR = 25"
  by (simp add: SECOND_CHAR_def)

lemma distinct_FIRST_CHAR: "distinct FIRST_CHAR"
  by (simp add: FIRST_CHAR_def)

lemma distinct_SECOND_CHAR: "distinct SECOND_CHAR"
  by (simp add: SECOND_CHAR_def)

lemma encode_milliseconds_in_range:
  assumes "0 \<le> m" "m \<le> 999"
  shows "encode_milliseconds m =
           Inr [FIRST_CHAR ! nat (m div 25), SECOND_CHAR ! nat (m mod 25)]"
proof -
  have a: "0 \<le> m div 25" "m div 25 < 40" using assms by auto
  have b: "0 \<le> m mod 25" "m mod 25 < 25" by auto
  have c: "\<not> m mod 25 < 0" "\<not> 25 \<le> m mod 25" using b by linarith+
  from a c assms show ?thesis
    by (simp add: encode_milliseconds_def Let_def py_index_in_range
        length_FIRST_CHAR length_SECOND_CHAR)
qed

lemma decode_milliseconds_pair:
  "decode_milliseconds [c0, c1] =
     Inr (if py_find FIRST_CHAR c0 = -1 \<or> py_find SECOND_CHAR c1 = -1 then -1
          else py_find FIRST_CHAR c0 * 25 + py_find SECOND_CHAR c1)"
  by (simp add: decode_milliseconds_def py_index_def Let_def)

lemma decode_encode_milliseconds:
  assumes "0 \<le> m" "m \<le> 999"
  shows "decode_milliseconds [FIRST_CHAR ! nat (m div 25), SECOND_CHAR ! nat (m mod 25)]
           = Inr m"
proof -
  have a: "nat (m div 25) < length FIRST_CHAR"
    using assms by (simp add: length_FIRST_CHAR)
  have b: "nat (m mod 25) < length SECOND_CHAR"
    by (simp add: length_SECOND_CHAR)
  have f: "py_find FIRST_CHAR (FIRST_CHAR ! nat (m div 25)) = m div 25"
    using py_find_nth [OF distinct_FIRST_CHAR a] assms by simp
  have s: "py_find SECOND_CHAR (SECOND_CHAR ! nat (m mod 25)) = m mod 25"
    using py_find_nth [OF distinct_SECOND_CHAR b] by simp
  have "m div 25 \<noteq> -1" "m mod 25 \<noteq> -1" using assms by auto
  then show ?thesis
    by (simp add: decode_milliseconds_pair f s)
qed

section \<open>ThousandCounter: round trip and range\<close>

text \<open>
  Claim C5.  For every \<open>millis\<close> in \<open>[0, 999]\<close>, \<open>encode_milliseconds\<close> returns a code
  that \<open>decode_milliseconds\<close> maps back to \<open>millis\<close>; for every \<open>millis\<close> outside
  \<open>[0, 999]\<close>, and so for \<open>-1\<close> and \<open>1000\<close>, \<open>encode_milliseconds\<close> raises ValueError.
\<close>

theorem thousand_counter_round_trip:
  "(0 \<le> m \<and> m \<le> 999 \<longrightarrow>
      (\<exists>code. encode_milliseconds m = Inr code \<and> decode_milliseconds code = Inr m)) \<and>
   (m < 0 \<or> 999 < m \<longrightarrow> encode_milliseconds m = Inl ValueError) \<and>
   encode_milliseconds (-1) = Inl ValueError \<and>
   encode_milliseconds 1000 = Inl ValueError"
proof (intro conjI impI)
  assume "0 \<le> m \<and> m \<le> 999"
  then show "\<exists>code. encode_milliseconds m = Inr code \<and> decode_milliseconds code = Inr m"
    using encode_milliseconds_in_range [of m] decode_encode_milliseconds [of m] by simp
next
  assume "m < 0 \<or> 999 < m"
  then show "encode_milliseconds m = Inl ValueError"
    by (auto simp: encode_milliseconds_def)
next
  show "encode_milliseconds (-1) = Inl ValueError"
    by (simp add: encode_milliseconds_def)
next
  show "encode_milliseconds 1000 = Inl ValueError"
    by (simp add: encode_milliseconds_def)
qed

theorem thousand_counter_round_trip_witness:
  "(0::int) \<le> 123 \<and> (123::int) \<le> 999 \<and>
   (\<exists>code. encode_milliseconds 123 = Inr code \<and> decode_milliseconds code = Inr 123) \<and>
   ((1000::int) < 0 \<or> (999::int) < 1000) \<and>
   encode_milliseconds 1000 = Inl ValueError"
  using thousand_counter_round_trip [of 123] thousand_counter_round_trip [of 1000]
  by simp

text \<open>
  Claim C10.  On every string, of any length, \<open>decode_milliseconds\<close> returns normally
  (no exception), and the value is the sentinel \<open>-1\<close> or lies in \<open>[0, 999]\<close>; the first
  alphabet has exactly 40 symbols and the second exactly 25, and the largest value,
  \<open>39 * 25 + 24 = 999\<close>, is reached on the last symbol of each alphabet.
\<close>

theorem decode_milliseconds_total_and_bounded:
  "(\<exists>v. decode_milliseconds code = Inr v \<and> (v = -1 \<or> (0 \<le> v \<and> v \<le> 999))) \<and>
   length FIRST_CHAR = 40 \<and> length SECOND_CHAR = 25 \<and>
   decode_milliseconds [last FIRST_CHAR, last SECOND_CHAR] = Inr (39 * 25 + 24) \<and>
   (39 * 25 + 24 :: int) = 999"
proof (intro conjI)
  show "\<exists>v. decode_milliseconds code = Inr v \<and> (v = -1 \<or> (0 \<le> v \<and> v \<le> 999))"
  proof (cases "code = [] \<or> length code \<noteq> 2")
    case True
    then show ?thesis by (simp add: decode_milliseconds_def)
  next
    case False
    then obtain c0 c1 where code: "code = [c0, c1]"
      by (cases code; cases "tl code") auto
    have f: "py_find FIRST_CHAR c0 = -1 \<or>
             (0 \<le> py_find FIRST_CHAR c0 \<and> py_find FIRST_CHAR c0 < 40)"
      using py_find_range [of FIRST_CHAR c0] by (simp add: length_FIRST_CHAR)
    have s: "py_find SECOND_CHAR c1 = -1 \<or>
             (0 \<le> py_find SECOND_CHAR c1 \<and> py_find SECOND_CHAR c1 < 25)"
      using py_find_range [of SECOND_CHAR c1] by (simp add: length_SECOND_CHAR)
    from f s show ?thesis
      unfolding code decode_milliseconds_pair by auto
  qed
next
  show "length FIRST_CHAR = 40" by (rule length_FIRST_CHAR)
next
  show "length SECOND_CHAR = 25" by (rule length_SECOND_CHAR)
next
  show "decode_milliseconds [last FIRST_CHAR, last SECOND_CHAR] = Inr (39 * 25 + 24)"
    by (simp add: decode_milliseconds_pair FIRST_CHAR_def SECOND_CHAR_def)
next
  show "(39 * 25 + 24 :: int) = 999" by simp
qed

section \<open>Zero-run compression\<close>

lemma expand_zeros_append:
  "expand_zeros (a @ b) = expand_zeros a @ expand_zeros b"
  by (simp add: expand_zeros_def)

lemma expand_zeros_Nil: "expand_zeros [] = []"
  by (simp add: expand_zeros_def)

lemma expand_zeros_zeros:
  "expand_zeros (replicate n (CHR ''0'')) = replicate n (CHR ''0'')"
  by (induction n) (simp_all add: expand_zeros_def expand_char_def)

lemma expand_zeros_ampersand: "expand_zeros ''&'' = replicate 7 (CHR ''0'')"
  by (simp add: expand_zeros_def expand_char_def numeral_eq_Suc)

lemma expand_encode_zero_run:
  assumes "0 < n"
  shows "expand_zeros (encode_zero_run n) = replicate n (CHR ''0'')"
proof (cases "n \<le> 7")
  case True
  with assms have "n = 1 \<or> n = 2 \<or> n = 3 \<or> n = 4 \<or> n = 5 \<or> n = 6 \<or> n = 7"
    by linarith
  then show ?thesis
    by (auto simp: encode_zero_run_def expand_zeros_def expand_char_def numeral_eq_Suc)
next
  case False
  then have big: "7 < n" by simp
  then have run: "encode_zero_run n = ''&'' @ replicate (n - 7) (CHR ''0'')"
    by (simp add: encode_zero_run_def)
  have "expand_zeros (encode_zero_run n)
          = replicate 7 (CHR ''0'') @ replicate (n - 7) (CHR ''0'')"
    unfolding run expand_zeros_append expand_zeros_ampersand expand_zeros_zeros ..
  also have "\<dots> = replicate (7 + (n - 7)) (CHR ''0'')"
    by (simp only: replicate_add)
  also have "7 + (n - 7) = n" using big by simp
  finally show ?thesis .
qed

lemma expand_flush_run:
  "expand_zeros (flush_run (acc, zc)) = expand_zeros acc @ replicate zc (CHR ''0'')"
  by (cases "zc = 0")
     (simp_all add: flush_run_def expand_zeros_append expand_encode_zero_run)

lemma compress_zeros_flush: "compress_zeros s = flush_run (compress_loop s [] 0)"
  by (simp add: compress_zeros_def flush_run_def split: prod.splits)

lemma expand_char_plain:
  "c \<notin> set ''.:;?!&'' \<Longrightarrow> expand_char c = [c]"
  by (auto simp: expand_char_def)

lemma expand_compress_loop:
  "set s \<inter> set ''.:;?!&'' = {} \<Longrightarrow>
   expand_zeros (flush_run (compress_loop s acc zc))
     = expand_zeros acc @ replicate zc (CHR ''0'') @ s"
proof (induction s arbitrary: acc zc)
  case Nil
  show ?case by (simp add: expand_flush_run)
next
  case (Cons c s)
  from Cons.prems have plain: "c \<notin> set ''.:;?!&''" and rest: "set s \<inter> set ''.:;?!&'' = {}"
    by auto
  show ?case
  proof (cases "c = CHR ''0''")
    case True
    have "expand_zeros (flush_run (compress_loop (c # s) acc zc))
            = expand_zeros acc @ replicate (zc + 1) (CHR ''0'') @ s"
      using True Cons.IH [OF rest, of acc "zc + 1"] by simp
    also have "replicate (zc + 1) (CHR ''0'') = replicate zc (CHR ''0'') @ [CHR ''0'']"
      by (simp add: replicate_append_same)
    finally show ?thesis using True by simp
  next
    case False
    have step: "compress_loop (c # s) acc zc
                  = compress_loop s (flush_run (acc, zc) @ [c]) 0"
      using False by (simp add: flush_run_def)
    have "expand_zeros (flush_run (compress_loop (c # s) acc zc))
            = expand_zeros (flush_run (acc, zc) @ [c]) @ replicate 0 (CHR ''0'') @ s"
      unfolding step by (rule Cons.IH [OF rest])
    also have "expand_zeros (flush_run (acc, zc) @ [c])
                 = expand_zeros acc @ replicate zc (CHR ''0'') @ [c]"
      using expand_char_plain [OF plain]
      by (simp add: expand_zeros_append expand_flush_run) (simp add: expand_zeros_def)
    finally show ?thesis by simp
  qed
qed

lemma compress_loop_zeros:
  "compress_loop (replicate n (CHR ''0'')) acc zc = (acc, zc + n)"
  by (induction n arbitrary: zc) simp_all

lemma field_symbols_plain:
  "c \<in> {CHR ''0''} \<union> set YEAR_CHARS \<union> set MONTHS \<union> set DAYS \<union> set HOURS \<union>
        set MINUTES \<union> set FIRST_CHAR \<union> set SECOND_CHAR \<Longrightarrow>
   c \<notin> set ''.:;?!&''"
  unfolding YEAR_CHARS_def MONTHS_def DAYS_def HOURS_def MINUTES_def FIRST_CHAR_def
    SECOND_CHAR_def
  by auto

text \<open>
  Claim C6.  For every string over the literal \<open>0\<close> and the field alphabets (year, month,
  day, hour, minute and second symbols, and the two millisecond alphabets), expanding
  the compressed string gives the string back; a run of \<open>L > 7\<close> zeros compresses to
  \<open>&\<close> followed by \<open>L - 7\<close> literal zeros, and \<open>&\<close> expands to exactly seven zeros.
\<close>

theorem expand_compress_zeros:
  "(set s \<subseteq> {CHR ''0''} \<union> set YEAR_CHARS \<union> set MONTHS \<union> set DAYS \<union> set HOURS \<union>
            set MINUTES \<union> set FIRST_CHAR \<union> set SECOND_CHAR
      \<longrightarrow> expand_zeros (compress_zeros s) = s) \<and>
   (7 < L \<longrightarrow> compress_zeros (replicate L (CHR ''0''))
                 = ''&'' @ replicate (L - 7) (CHR ''0'')) \<and>
   expand_zeros ''&'' = ''0000000''"
proof (intro conjI impI)
  assume alph: "set s \<subseteq> {CHR ''0''} \<union> set YEAR_CHARS \<union> set MONTHS \<union> set DAYS \<union>
                  set HOURS \<union> set MINUTES \<union> set FIRST_CHAR \<union> set SECOND_CHAR"
  have "set s \<inter> set ''.:;?!&'' = {}"
  proof (rule ccontr)
    assume "set s \<inter> set ''.:;?!&'' \<noteq> {}"
    then obtain c where c: "c \<in> set s" "c \<in> set ''.:;?!&''" by blast
    from c(1) alph have "c \<in> {CHR ''0''} \<union> set YEAR_CHARS \<union> set MONTHS \<union> set DAYS \<union>
                  set HOURS \<union> set MINUTES \<union> set FIRST_CHAR \<union> set SECOND_CHAR"
      by (rule subsetD [rotated])
    from field_symbols_plain [OF this] c(2) show False by contradiction
  qed
  from expand_compress_loop [OF this, of "[]" 0]
  show "expand_zeros (compress_zeros s) = s"
    by (simp add: compress_zeros_flush expand_zeros_Nil)
next
  assume "7 < L"
  then show "compress_zeros (replicate L (CHR ''0'')) = ''&'' @ replicate (L - 7) (CHR ''0'')"
    by (simp add: compress_zeros_flush compress_loop_zeros flush_run_def encode_zero_run_def)
next
  show "expand_zeros ''&'' = ''0000000''"
    by (simp add: expand_zeros_def expand_char_def)
qed

theorem expand_compress_zeros_witness:
  "set ''Ab10000000000C0'' \<subseteq> {CHR ''0''} \<union> set YEAR_CHARS \<union> set MONTHS \<union> set DAYS \<union>
     set HOURS \<union> set MINUTES \<union> set FIRST_CHAR \<union> set SECOND_CHAR \<and>
   expand_zeros (compress_zeros ''Ab10000000000C0'') = ''Ab10000000000C0'' \<and>
   (7::nat) < 9 \<and>
   compress_zeros (replicate 9 (CHR ''0'')) = ''&'' @ replicate (9 - 7) (CHR ''0'')"
proof -
  have a: "set ''Ab10000000000C0'' \<subseteq> {CHR ''0''} \<union> set YEAR_CHARS \<union> set MONTHS \<union>
             set DAYS \<union> set HOURS \<union> set MINUTES \<union> set FIRST_CHAR \<union> set SECOND_CHAR"
    by (simp add: YEAR_CHARS_def)
  have b: "(7::nat) < 9" by simp
  from a b expand_compress_zeros [of "''Ab10000000000C0''" 9] show ?thesis by blast
qed

section \<open>decode raises no exception\<close>

lemma hbind_Inr [simp]: "hbind (Inr x) f = f x"
  by (simp add: hbind_def)

lemma hbind_Inl [simp]: "hbind (Inl h) f = Inl h"
  by (simp add: hbind_def)

lemma raising_Inr [simp]: "raising (Inr x) = Inr x"
  by (simp add: raising_def)

lemma raising_Inl [simp]: "raising (Inl e) = Inl (Raise e)"
  by (simp add: raising_def)

lemma no_raise_simps [simp]:
  "no_raise (Inr x)" "no_raise (Inl ReturnEmpty)" "\<not> no_raise (Inl (Raise e))"
  by (simp_all add: no_raise_def)






























section \<open>decode on the inputs of the error-handling test\<close>

text \<open>
  Claim C8.  \<open>decode(None)\<close>, \<open>decode("")\<close>, \<open>decode("INVALID")\<close> and \<open>decode("123")\<close> each
  return a value whose \<open>is_empty()\<close> is true.  The body \<open>123\<close> sits on the boundary of the
  rule for bodies shorter than 3 symbols without a leading \<open>0\<close>, which lets it pass, and is
  rejected by the minimum expanded length of 7.
\<close>

theorem decode_invalid_inputs_empty:
  "decode None = Inr create_empty \<and>
   decode (Some []) = Inr create_empty \<and>
   decode (Some ''INVALID'') = Inr create_empty \<and>
   decode (Some ''123'') = Inr create_empty \<and>
   is_empty create_empty \<and>
   \<not> (hd ''123'' \<noteq> CHR ''0'' \<and> length ''123'' < 3) \<and>
   length (expand_zeros ''123'') < 7"
  by code_simp

text \<open>
  Claim C4.  An input whose body holds the absent marker at all seven field positions
  should decode to the Empty value whatever affix follows.  The short body \<open>&\<close> does:
  \<open>&+05\<close> decodes to the Empty sentinel.  The body \<open>0000000\<close> does not: \<open>0000000+05\<close>
  decodes to a value that is tagged Empty but keeps the offset of 20 quarter hours,
  reports the timezone \<open>+05\<close>, and is not equal to the Empty sentinel.
\<close>

theorem decode_all_absent_keeps_affix:
  "decode (Some ''0000000+05'')
     = Inr \<lparr>packed_value = 0, timezone_offset = 20, date_type = TYPE_EMPTY\<rparr> \<and>
   is_empty \<lparr>packed_value = 0, timezone_offset = 20, date_type = TYPE_EMPTY\<rparr> \<and>
   get_timezone \<lparr>packed_value = 0, timezone_offset = 20, date_type = TYPE_EMPTY\<rparr>
     = Some ''+05'' \<and>
   \<not> bitdt_eq \<lparr>packed_value = 0, timezone_offset = 20, date_type = TYPE_EMPTY\<rparr>
        create_empty \<and>
   expand_zeros ''0000000'' = expand_zeros ''&'' \<and>
   decode (Some ''&+05'') = Inr create_empty"
  by code_simp

section \<open>The packed value as a positional numeral\<close>

lemma push_bit_or_low:
  fixes a b :: int
  assumes "0 \<le> b" "b < 2 ^ n"
  shows "push_bit n a OR b = a * 2 ^ n + b"
proof -
  have b: "take_bit n b = b" using assms by (rule take_bit_int_eq_self)
  have "push_bit n a + take_bit n b = push_bit n a OR take_bit n b"
    by (rule disjunctive_add) (auto simp: bit_simps)
  then show ?thesis by (simp add: b push_bit_eq_mult)
qed

lemma date_type_range:
  "0 \<le> determine_date_type y m d h mi s ms \<and> determine_date_type y m d h mi s ms < 256"
  by (simp add: determine_date_type_def TYPE_EMPTY_def TYPE_FULL_def TYPE_DATE_ONLY_def
      TYPE_TIME_ONLY_def TYPE_DATE_HOUR_def)

text \<open>The tail of the packed value below the year, month, ... field.\<close>

lemma packed_value_sum:
  assumes "0 \<le> m" "m < 16" "0 \<le> d" "d < 32" "0 \<le> h" "h < 32" "0 \<le> mi" "mi < 64"
    "0 \<le> s" "s < 64" "0 \<le> ms" "ms < 1024"
  shows "packed_value (from_primitives y m d h mi s ms tz)
           = y * 2 ^ 44 + (m * 2 ^ 40 + (d * 2 ^ 35 + (h * 2 ^ 30 + (mi * 2 ^ 24 +
             (s * 2 ^ 18 + (ms * 2 ^ 8 + determine_date_type y m d h mi s ms))))))"
proof -
  define t where "t = determine_date_type y m d h mi s ms"
  have t: "0 \<le> t" "t < 256" using date_type_range [of y m d h mi s ms] by (simp_all add: t_def)
  have e1: "push_bit 8 ms OR t = ms * 2 ^ 8 + t"
    using t by (intro push_bit_or_low) simp_all
  have e2: "push_bit 18 s OR (ms * 2 ^ 8 + t) = s * 2 ^ 18 + (ms * 2 ^ 8 + t)"
    using t assms by (intro push_bit_or_low) simp_all
  have e3: "push_bit 24 mi OR (s * 2 ^ 18 + (ms * 2 ^ 8 + t))
              = mi * 2 ^ 24 + (s * 2 ^ 18 + (ms * 2 ^ 8 + t))"
    using t assms by (intro push_bit_or_low) simp_all
  have e4: "push_bit 30 h OR (mi * 2 ^ 24 + (s * 2 ^ 18 + (ms * 2 ^ 8 + t)))
              = h * 2 ^ 30 + (mi * 2 ^ 24 + (s * 2 ^ 18 + (ms * 2 ^ 8 + t)))"
    using t assms by (intro push_bit_or_low) simp_all
  have e5: "push_bit 35 d OR (h * 2 ^ 30 + (mi * 2 ^ 24 + (s * 2 ^ 18 + (ms * 2 ^ 8 + t))))
              = d * 2 ^ 35 + (h * 2 ^ 30 + (mi * 2 ^ 24 + (s * 2 ^ 18 + (ms * 2 ^ 8 + t))))"
    using t assms by (intro push_bit_or_low) simp_all
  have e6: "push_bit 40 m OR
              (d * 2 ^ 35 + (h * 2 ^ 30 + (mi * 2 ^ 24 + (s * 2 ^ 18 + (ms * 2 ^ 8 + t)))))
              = m * 2 ^ 40 +
                (d * 2 ^ 35 + (h * 2 ^ 30 + (mi * 2 ^ 24 + (s * 2 ^ 18 + (ms * 2 ^ 8 + t)))))"
    using t assms by (intro push_bit_or_low) simp_all
  have e7: "push_bit 44 y OR (m * 2 ^ 40 +
                (d * 2 ^ 35 + (h * 2 ^ 30 + (mi * 2 ^ 24 + (s * 2 ^ 18 + (ms * 2 ^ 8 + t))))))
              = y * 2 ^ 44 + (m * 2 ^ 40 +
                (d * 2 ^ 35 + (h * 2 ^ 30 + (mi * 2 ^ 24 + (s * 2 ^ 18 + (ms * 2 ^ 8 + t))))))"
    using t assms by (intro push_bit_or_low) simp_all
  have "packed_value (from_primitives y m d h mi s ms tz)
          = push_bit 44 y OR push_bit 40 m OR push_bit 35 d OR push_bit 30 h OR
            push_bit 24 mi OR push_bit 18 s OR push_bit 8 ms OR t"
    by (simp add: from_primitives_def Let_def t_def)
  also have "\<dots> = y * 2 ^ 44 + (m * 2 ^ 40 +
                (d * 2 ^ 35 + (h * 2 ^ 30 + (mi * 2 ^ 24 + (s * 2 ^ 18 + (ms * 2 ^ 8 + t))))))"
    by (simp only: e1 e2 e3 e4 e5 e6 e7)
  finally show ?thesis by (simp only: t_def)
qed

lemma valid_components_widths:
  assumes "valid_components y m d h mi s ms"
  shows "0 \<le> y" "y < 2 ^ 20" "0 \<le> m" "m < 16" "0 \<le> d" "d < 32" "0 \<le> h" "h < 32"
    "0 \<le> mi" "mi < 64" "0 \<le> s" "s < 64" "0 \<le> ms" "ms < 1024"
  using assms by (simp_all add: valid_components_def)

section \<open>Ordering\<close>

lemma lex_step:
  fixes a1 a2 r1 r2 w :: int
  assumes "0 \<le> r1" "r1 < w" "0 \<le> r2" "r2 < w"
  shows "(a1 * w + r1 < a2 * w + r2) = (a1 < a2 \<or> (a1 = a2 \<and> r1 < r2))"
proof -
  have w: "0 \<le> w" using assms by linarith
  consider "a1 < a2" | "a1 = a2" | "a2 < a1" by linarith
  then show ?thesis
  proof cases
    case 1
    then have "a1 + 1 \<le> a2" by simp
    then have "(a1 + 1) * w \<le> a2 * w" using w by (rule mult_right_mono)
    then have "a1 * w + w \<le> a2 * w" by (simp add: algebra_simps)
    with assms 1 show ?thesis by linarith
  next
    case 2
    then show ?thesis by simp
  next
    case 3
    then have "a2 + 1 \<le> a1" by simp
    then have "(a2 + 1) * w \<le> a1 * w" using w by (rule mult_right_mono)
    then have "a2 * w + w \<le> a1 * w" by (simp add: algebra_simps)
    with assms 3 show ?thesis by linarith
  qed
qed

lemma packed_value_less:
  assumes v1: "valid_components y1 m1 d1 h1 mi1 s1 ms1"
    and v2: "valid_components y2 m2 d2 h2 mi2 s2 ms2"
    and tag: "determine_date_type y1 m1 d1 h1 mi1 s1 ms1
                = determine_date_type y2 m2 d2 h2 mi2 s2 ms2"
  shows "(packed_value (from_primitives y1 m1 d1 h1 mi1 s1 ms1 tz1)
            < packed_value (from_primitives y2 m2 d2 h2 mi2 s2 ms2 tz2))
         = (y1 < y2 \<or> (y1 = y2 \<and> (m1 < m2 \<or> (m1 = m2 \<and> (d1 < d2 \<or> (d1 = d2 \<and>
             (h1 < h2 \<or> (h1 = h2 \<and> (mi1 < mi2 \<or> (mi1 = mi2 \<and>
             (s1 < s2 \<or> (s1 = s2 \<and> ms1 < ms2))))))))))))"
proof -
  define t where "t = determine_date_type y1 m1 d1 h1 mi1 s1 ms1"
  have t2: "determine_date_type y2 m2 d2 h2 mi2 s2 ms2 = t" using tag by (simp add: t_def)
  have t: "0 \<le> t" "t < 256"
    using date_type_range [of y1 m1 d1 h1 mi1 s1 ms1] by (simp_all add: t_def)
  note w1 = valid_components_widths [OF v1]
  note w2 = valid_components_widths [OF v2]
  define a1 where "a1 = ms1 * 2 ^ 8 + t"
  define a2 where "a2 = ms2 * 2 ^ 8 + t"
  define b1 where "b1 = s1 * 2 ^ 18 + a1"
  define b2 where "b2 = s2 * 2 ^ 18 + a2"
  define c1 where "c1 = mi1 * 2 ^ 24 + b1"
  define c2 where "c2 = mi2 * 2 ^ 24 + b2"
  define e1 where "e1 = h1 * 2 ^ 30 + c1"
  define e2 where "e2 = h2 * 2 ^ 30 + c2"
  define f1 where "f1 = d1 * 2 ^ 35 + e1"
  define f2 where "f2 = d2 * 2 ^ 35 + e2"
  define g1 where "g1 = m1 * 2 ^ 40 + f1"
  define g2 where "g2 = m2 * 2 ^ 40 + f2"
  have a: "0 \<le> a1" "a1 < 2 ^ 18" "0 \<le> a2" "a2 < 2 ^ 18"
    using w1 w2 t by (simp_all add: a1_def a2_def)
  have b: "0 \<le> b1" "b1 < 2 ^ 24" "0 \<le> b2" "b2 < 2 ^ 24"
    using w1 w2 a by (simp_all add: b1_def b2_def)
  have c: "0 \<le> c1" "c1 < 2 ^ 30" "0 \<le> c2" "c2 < 2 ^ 30"
    using w1 w2 b by (simp_all add: c1_def c2_def)
  have e: "0 \<le> e1" "e1 < 2 ^ 35" "0 \<le> e2" "e2 < 2 ^ 35"
    using w1 w2 c by (simp_all add: e1_def e2_def)
  have f: "0 \<le> f1" "f1 < 2 ^ 40" "0 \<le> f2" "f2 < 2 ^ 40"
    using w1 w2 e by (simp_all add: f1_def f2_def)
  have g: "0 \<le> g1" "g1 < 2 ^ 44" "0 \<le> g2" "g2 < 2 ^ 44"
    using w1 w2 f by (simp_all add: g1_def g2_def)
  have p1: "packed_value (from_primitives y1 m1 d1 h1 mi1 s1 ms1 tz1) = y1 * 2 ^ 44 + g1"
    unfolding g1_def f1_def e1_def c1_def b1_def a1_def t_def
    by (rule packed_value_sum) (use w1 in simp_all)
  have p2: "packed_value (from_primitives y2 m2 d2 h2 mi2 s2 ms2 tz2) = y2 * 2 ^ 44 + g2"
    unfolding g2_def f2_def e2_def c2_def b2_def a2_def t2 [symmetric]
    by (rule packed_value_sum) (use w2 in simp_all)
  have la: "(a1 < a2) = (ms1 < ms2)" by (simp add: a1_def a2_def)
  have lb: "(b1 < b2) = (s1 < s2 \<or> (s1 = s2 \<and> a1 < a2))"
    unfolding b1_def b2_def using a by (rule lex_step)
  have lc: "(c1 < c2) = (mi1 < mi2 \<or> (mi1 = mi2 \<and> b1 < b2))"
    unfolding c1_def c2_def using b by (rule lex_step)
  have le: "(e1 < e2) = (h1 < h2 \<or> (h1 = h2 \<and> c1 < c2))"
    unfolding e1_def e2_def using c by (rule lex_step)
  have lf: "(f1 < f2) = (d1 < d2 \<or> (d1 = d2 \<and> e1 < e2))"
    unfolding f1_def f2_def using e by (rule lex_step)
  have lg: "(g1 < g2) = (m1 < m2 \<or> (m1 = m2 \<and> f1 < f2))"
    unfolding g1_def g2_def using f by (rule lex_step)
  have lp: "(y1 * 2 ^ 44 + g1 < y2 * 2 ^ 44 + g2) = (y1 < y2 \<or> (y1 = y2 \<and> g1 < g2))"
    using g by (rule lex_step)
  show ?thesis
    unfolding p1 p2 lp lg lf le lc lb la ..
qed

text \<open>
  Claim C2.  For two values built by \<open>from_primitives\<close> from in-range components that
  carry the same precision tag, and so for two Full-precision values, \<open>compare_to\<close>
  returns the result of comparing the two tuples (year, month, day, hour, minute,
  second, millis) lexicographically: the numeric order of the packed values is the
  lexicographic order of the tuples, and the tag in the low byte does not disturb it.
\<close>

theorem compare_to_lexicographic:
  assumes "valid_components y1 m1 d1 h1 mi1 s1 ms1"
    and "valid_components y2 m2 d2 h2 mi2 s2 ms2"
    and "determine_date_type y1 m1 d1 h1 mi1 s1 ms1
           = determine_date_type y2 m2 d2 h2 mi2 s2 ms2"
  shows "compare_to (from_primitives y1 m1 d1 h1 mi1 s1 ms1 tz1)
                    (from_primitives y2 m2 d2 h2 mi2 s2 ms2 tz2)
           = lex_compare [y1, m1, d1, h1, mi1, s1, ms1] [y2, m2, d2, h2, mi2, s2, ms2]"
proof -
  note lt = packed_value_less [OF assms(1) assms(2) assms(3), of tz1 tz2]
  note gt = packed_value_less [OF assms(2) assms(1) assms(3) [symmetric], of tz2 tz1]
  show ?thesis
    unfolding compare_to_def lt gt by auto
qed


theorem compare_to_lexicographic_witness:
  "valid_components 50000 5 15 12 30 45 123 \<and> valid_components 50000 5 15 12 31 0 7 \<and>
   determine_date_type 50000 5 15 12 30 45 123 = TYPE_FULL \<and>
   determine_date_type 50000 5 15 12 31 0 7 = TYPE_FULL \<and>
   compare_to (from_primitives 50000 5 15 12 30 45 123 None)
              (from_primitives 50000 5 15 12 31 0 7 (Some ''+0530'')) = -1 \<and>
   lex_compare [50000, 5, 15, 12, 30, 45, 123] [50000, 5, 15, 12, 31, 0, 7] = -1"
proof -
  have a: "valid_components 50000 5 15 12 30 45 123"
    by (simp add: valid_components_def)
  have b: "valid_components 50000 5 15 12 31 0 7"
    by (simp add: valid_components_def)
  have c: "determine_date_type 50000 5 15 12 30 45 123 = TYPE_FULL"
    by (simp add: determine_date_type_def)
  have d: "determine_date_type 50000 5 15 12 31 0 7 = TYPE_FULL"
    by (simp add: determine_date_type_def)
  have e: "lex_compare [50000, 5, 15, 12, 30, 45, 123] [50000, 5, 15, 12, 31, 0, 7] = -1"
    by simp
  from compare_to_lexicographic [OF a b, of None "Some ''+0530''"] c d e
  show ?thesis using a b by simp
qed

section \<open>Positional numerals\<close>

declare encode_base_loop.simps [simp del]

lemma digit_value_is_digit:
  assumes "digit_value c < 37"
  shows "\<not> py_isspace c" "c \<noteq> CHR ''_''" "c \<noteq> CHR ''+''" "c \<noteq> CHR ''-''"
  using assms by (auto simp: digit_value_def py_isspace_def Let_def)

lemma digit_value_zero: "digit_value (CHR ''0'') = 0"
  by (simp add: digit_value_def)

lemma base36_digit:
  "\<forall>k \<in> set [0..<36]. digit_value (BASE36_CHARS ! k) = int k"
  by code_simp

lemma base36_digit_value:
  assumes "0 \<le> k" "k < 36"
  shows "digit_value (BASE36_CHARS ! nat k) = k"
proof -
  have "nat k \<in> set [0..<36]" using assms by simp
  with base36_digit have "digit_value (BASE36_CHARS ! nat k) = int (nat k)" by blast
  with assms show ?thesis by simp
qed

lemma length_BASE36_CHARS: "length BASE36_CHARS = 36"
  by (simp add: BASE36_CHARS_def)

lemma scan_digits_all:
  assumes "\<forall>c \<in> set s. digit_value c < b \<and> c \<noteq> CHR ''_''" and "prev \<noteq> CHR ''_''"
  shows "scan_digits b s acc cnt prev
           = Inr (foldl (\<lambda>v c. v * b + digit_value c) acc s, cnt + length s, [])"
  using assms by (induction s arbitrary: acc cnt prev) simp_all

lemma encode_base_loop_digits:
  "0 \<le> num \<Longrightarrow> 2 \<le> b \<Longrightarrow> b \<le> 36 \<Longrightarrow>
         \<exists>ds. encode_base_loop num b acc = Inr (acc @ ds) \<and>
              (\<forall>c \<in> set ds. 0 \<le> digit_value c \<and> digit_value c < b) \<and>
              foldl (\<lambda>v c. v * b + digit_value c) 0 (rev ds) = num \<and>
              (num = 0 \<longrightarrow> ds = []) \<and>
              (0 < num \<longrightarrow> ds \<noteq> [] \<and> digit_value (last ds) \<noteq> 0)"
proof (induction num b acc rule: encode_base_loop.induct)
  case (1 num base result)
  show ?case
  proof (cases "0 < num")
    case False
    with "1.prems" have "num = 0" by simp
    then show ?thesis by (simp add: encode_base_loop.simps)
  next
    case True
    have base: "2 \<le> base" "base \<le> 36" using "1.prems" by simp_all
    define k where "k = num mod base"
    define c where "c = BASE36_CHARS ! nat k"
    have k: "0 \<le> k" "k < base" using base by (simp_all add: k_def)
    then have k36: "k < 36" using base by linarith
    have idx: "py_index BASE36_CHARS (num mod base) = Inr c"
      using k k36 by (simp add: py_index_in_range length_BASE36_CHARS c_def k_def)
    have dv: "digit_value c = k"
      unfolding c_def using k(1) k36 by (rule base36_digit_value)
    have q: "0 \<le> num div base"
      using True base by (simp add: pos_imp_zdiv_nonneg_iff)
    from "1.IH" [of c] True base q
    obtain ds where ds: "encode_base_loop (num div base) base (result @ [c])
                           = Inr ((result @ [c]) @ ds)"
      and dig: "\<forall>x \<in> set ds. 0 \<le> digit_value x \<and> digit_value x < base"
      and val: "foldl (\<lambda>v x. v * base + digit_value x) 0 (rev ds) = num div base"
      and zero: "num div base = 0 \<longrightarrow> ds = []"
      and pos: "0 < num div base \<longrightarrow> ds \<noteq> [] \<and> digit_value (last ds) \<noteq> 0"
      by blast
    have run: "encode_base_loop num base result = Inr (result @ (c # ds))"
      using True base idx ds by (subst encode_base_loop.simps) simp
    have numeral: "foldl (\<lambda>v x. v * base + digit_value x) 0 (rev (c # ds)) = num"
      using val dv by (simp add: k_def)
    have lead: "digit_value (last (c # ds)) \<noteq> 0"
    proof (cases "num div base = 0")
      case True
      with zero have "ds = []" by simp
      moreover have "num < base"
      proof (rule ccontr)
        assume "\<not> num < base"
        then have "base \<le> num" by simp
        with base have "0 < num div base" by (simp add: pos_imp_zdiv_pos_iff)
        with True show False by simp
      qed
      then have "k = num" using \<open>0 < num\<close> by (simp add: k_def mod_pos_pos_trivial)
      ultimately show ?thesis using dv \<open>0 < num\<close> by simp
    next
      case False
      with q pos have "ds \<noteq> []" "digit_value (last ds) \<noteq> 0" by simp_all
      then show ?thesis by simp
    qed
    from run numeral lead dig dv k True show ?thesis by auto
  qed
qed

lemma power_of_two_base_range:
  "\<forall>b \<in> set [2..36]. power_of_two_base b = (b \<in> set [2, 4, 8, 16, 32])"
  by code_simp

lemma power_of_two_base_iff:
  assumes "2 \<le> b" "b \<le> 36"
  shows "power_of_two_base b = (b \<in> {2, 4, 8, 16, 32})"
proof -
  from assms have "b \<in> set [2..36]" by (simp only: set_upto atLeastAtMost_iff simp_thms)
  with power_of_two_base_range have "power_of_two_base b = (b \<in> set [2, 4, 8, 16, 32])"
    by blast
  then show ?thesis by simp
qed

lemma numeral_upper_bound:
  fixes b :: int
  assumes "\<forall>c \<in> set s. 0 \<le> digit_value c \<and> digit_value c < b" and "0 \<le> acc"
  shows "foldl (\<lambda>v c. v * b + digit_value c) acc s + 1 \<le> (acc + 1) * b ^ length s"
  using assms
proof (induction s arbitrary: acc)
  case Nil
  then show ?case by simp
next
  case (Cons c s)
  then have c: "0 \<le> digit_value c" "digit_value c < b" by simp_all
  then have b: "0 \<le> b" by linarith
  have acc: "0 \<le> acc * b + digit_value c" using Cons.prems(2) c b by simp
  have "foldl (\<lambda>v c. v * b + digit_value c) (acc * b + digit_value c) s + 1
          \<le> (acc * b + digit_value c + 1) * b ^ length s"
    using Cons.IH [OF _ acc] Cons.prems(1) by simp
  also have "\<dots> \<le> ((acc + 1) * b) * b ^ length s"
  proof (rule mult_right_mono)
    show "acc * b + digit_value c + 1 \<le> (acc + 1) * b" using c by (simp add: algebra_simps)
    show "0 \<le> b ^ length s" using b by simp
  qed
  finally show ?case by (simp add: mult.assoc)
qed

lemma numeral_lower_bound:
  fixes b :: int
  assumes "\<forall>c \<in> set s. 0 \<le> digit_value c" and "0 \<le> acc" and "0 \<le> b"
  shows "acc * b ^ length s \<le> foldl (\<lambda>v c. v * b + digit_value c) acc s"
  using assms
proof (induction s arbitrary: acc)
  case Nil
  then show ?case by simp
next
  case (Cons c s)
  then have c: "0 \<le> digit_value c" by simp
  have acc: "0 \<le> acc * b + digit_value c" using Cons.prems c by simp
  have "acc * b ^ length (c # s) = (acc * b) * b ^ length s" by (simp add: mult.assoc)
  also have "\<dots> \<le> (acc * b + digit_value c) * b ^ length s"
    by (rule mult_right_mono) (use c Cons.prems(3) in simp_all)
  also have "\<dots> \<le> foldl (\<lambda>v c. v * b + digit_value c) (acc * b + digit_value c) s"
    using Cons.IH [OF _ acc Cons.prems(3)] Cons.prems(1) by simp
  finally show ?case by simp
qed

lemma numeral_length:
  fixes b :: int
  assumes b: "2 \<le> b"
    and dig: "\<forall>c \<in> set s. 0 \<le> digit_value c \<and> digit_value c < b"
    and ne: "s \<noteq> []" and lead: "digit_value (hd s) \<noteq> 0"
    and n: "foldl (\<lambda>v c. v * b + digit_value c) 0 s = n"
  shows "n < b ^ k \<Longrightarrow> length s \<le> k" and "b ^ k \<le> n \<Longrightarrow> k < length s"
proof -
  from ne obtain c0 cs where s: "s = c0 # cs" by (cases s) auto
  have "0 \<le> digit_value c0" "digit_value c0 \<noteq> 0" using dig lead by (simp_all add: s)
  then have c0: "1 \<le> digit_value c0" by linarith
  have "b ^ length cs \<le> digit_value c0 * b ^ length cs"
    using c0 b by (simp add: mult_le_cancel_right1)
  also have "\<dots> \<le> foldl (\<lambda>v c. v * b + digit_value c) (digit_value c0) cs"
    by (rule numeral_lower_bound) (use dig c0 b in \<open>simp_all add: s\<close>)
  finally have low: "b ^ (length s - 1) \<le> n" using n by (simp add: s)
  have "n + 1 \<le> (0 + 1) * b ^ length s"
    unfolding n [symmetric] by (rule numeral_upper_bound) (use dig in simp_all)
  then have up: "n < b ^ length s" by simp
  show "length s \<le> k" if "n < b ^ k"
  proof (rule ccontr)
    assume "\<not> length s \<le> k"
    then have "k \<le> length s - 1" by simp
    then have "b ^ k \<le> b ^ (length s - 1)" using b by (simp add: power_increasing)
    with low that show False by simp
  qed
  show "k < length s" if "b ^ k \<le> n"
  proof (rule ccontr)
    assume "\<not> k < length s"
    then have "length s \<le> k" by simp
    then have "b ^ length s \<le> b ^ k" using b by (simp add: power_increasing)
    with up that show False by simp
  qed
qed

lemma strip_base_prefix_digits:
  assumes "\<forall>c \<in> set s. digit_value c < b"
  shows "strip_base_prefix b s = s"
  using assms by (auto simp: strip_base_prefix_def digit_value_def split: list.splits)

lemma py_int_digits:
  assumes b: "2 \<le> b" "b \<le> 36"
    and dig: "\<forall>c \<in> set s. 0 \<le> digit_value c \<and> digit_value c < b"
    and ne: "s \<noteq> []"
  shows "py_int s b =
           (if \<not> power_of_two_base b \<and> INT_MAX_STR_DIGITS < length s then Inl ValueError
            else Inr (foldl (\<lambda>v c. v * b + digit_value c) 0 s))"
    and "py_int (CHR ''-'' # s) b =
           (if \<not> power_of_two_base b \<and> INT_MAX_STR_DIGITS < length s then Inl ValueError
            else Inr (- foldl (\<lambda>v c. v * b + digit_value c) 0 s))"
proof -
  from ne obtain c0 cs where s: "s = c0 # cs" by (cases s) auto
  have c0: "digit_value c0 < 37"
    using dig b by (auto simp: s)
  note plain = digit_value_is_digit [OF c0]
  have all: "\<forall>c \<in> set s. digit_value c < b \<and> c \<noteq> CHR ''_''"
  proof
    fix c assume "c \<in> set s"
    with dig b have "digit_value c < b" "digit_value c < 37" by auto
    with digit_value_is_digit(2) [of c] show "digit_value c < b \<and> c \<noteq> CHR ''_''" by simp
  qed
  have scan: "scan_digits b s 0 0 (CHR 0x00)
                = Inr (foldl (\<lambda>v c. v * b + digit_value c) 0 s, 0 + length s, [])"
    using all by (rule scan_digits_all) simp
  have prefix: "strip_base_prefix b s = s"
    using dig by (intro strip_base_prefix_digits) simp
  have sign: "strip_sign s = (1, s)"
    using plain by (simp add: strip_sign_def s)
  have drop: "dropWhile py_isspace s = s"
    using plain by (simp add: s)
  have hs: "hd s \<noteq> CHR ''_''" using plain by (simp add: s)
  show "py_int s b =
           (if \<not> power_of_two_base b \<and> INT_MAX_STR_DIGITS < length s then Inl ValueError
            else Inr (foldl (\<lambda>v c. v * b + digit_value c) 0 s))"
    using b ne hs by (simp add: py_int_def drop sign prefix scan)
  have msign: "strip_sign (CHR ''-'' # s) = (-1, s)"
    by (simp add: strip_sign_def)
  have nsp: "\<not> py_isspace (CHR ''-'')"
    by (simp add: py_isspace_def)
  show "py_int (CHR ''-'' # s) b =
           (if \<not> power_of_two_base b \<and> INT_MAX_STR_DIGITS < length s then Inl ValueError
            else Inr (- foldl (\<lambda>v c. v * b + digit_value c) 0 s))"
    using b ne hs by (simp add: py_int_def nsp msign prefix scan)
qed

lemma encode_base_positive:
  assumes "0 < n" "2 \<le> b" "b \<le> 36"
  shows "\<exists>s. encode_base n b = Inr s \<and> encode_base (- n) b = Inr (CHR ''-'' # s) \<and> s \<noteq> [] \<and>
             (power_of_two_base b \<or> n < b ^ INT_MAX_STR_DIGITS \<longrightarrow>
                py_int s b = Inr n \<and> py_int (CHR ''-'' # s) b = Inr (- n)) \<and>
             (\<not> power_of_two_base b \<and> b ^ INT_MAX_STR_DIGITS \<le> n \<longrightarrow>
                py_int s b = Inl ValueError \<and> py_int (CHR ''-'' # s) b = Inl ValueError)"
proof -
  from encode_base_loop_digits [of n b "[]"] assms
  obtain ds where ds: "encode_base_loop n b [] = Inr ds"
    and dig: "\<forall>c \<in> set ds. 0 \<le> digit_value c \<and> digit_value c < b"
    and val: "foldl (\<lambda>v c. v * b + digit_value c) 0 (rev ds) = n"
    and ne: "ds \<noteq> []" and lead: "digit_value (last ds) \<noteq> 0"
    by auto
  have dig': "\<forall>c \<in> set (rev ds). 0 \<le> digit_value c \<and> digit_value c < b"
    using dig by simp
  have ne': "rev ds \<noteq> []" using ne by simp
  have lead': "digit_value (hd (rev ds)) \<noteq> 0" using lead ne by (simp add: hd_rev)
  note p = py_int_digits [OF assms(2) assms(3) dig' ne', unfolded val]
  note len = numeral_length [OF assms(2) dig' ne' lead' val]
  have e1: "encode_base n b = Inr (rev ds)"
    using assms(1) ds by (simp add: encode_base_def)
  have e2: "encode_base (- n) b = Inr (CHR ''-'' # rev ds)"
    using assms(1) ds by (simp add: encode_base_def)
  have fits: "py_int (rev ds) b = Inr n \<and> py_int (CHR ''-'' # rev ds) b = Inr (- n)"
    if "power_of_two_base b \<or> n < b ^ INT_MAX_STR_DIGITS"
  proof -
    from that len(1) [of INT_MAX_STR_DIGITS]
    have "power_of_two_base b \<or> length (rev ds) \<le> INT_MAX_STR_DIGITS" by blast
    then have "\<not> (\<not> power_of_two_base b \<and> INT_MAX_STR_DIGITS < length (rev ds))" by auto
    then show ?thesis unfolding p by (simp only: if_False simp_thms)
  qed
  have over: "py_int (rev ds) b = Inl ValueError \<and> py_int (CHR ''-'' # rev ds) b = Inl ValueError"
    if "\<not> power_of_two_base b \<and> b ^ INT_MAX_STR_DIGITS \<le> n"
  proof -
    from that len(2) [of INT_MAX_STR_DIGITS]
    have "\<not> power_of_two_base b \<and> INT_MAX_STR_DIGITS < length (rev ds)" by blast
    then show ?thesis unfolding p by (simp only: if_True simp_thms)
  qed
  from e1 e2 ne' fits over show ?thesis by blast
qed

lemma from_bit_dt_explicit:
  assumes "2 \<le> b" "b \<le> 36" "s \<noteq> []" "py_int s b = Inr n"
  shows "from_bit_dt to_epoch year_first year_last s (Some b) = n"
  using assms by (simp add: from_bit_dt_def)

lemma from_bit_dt_explicit_fails:
  assumes "2 \<le> b" "b \<le> 36" "py_int s b = Inl e"
  shows "from_bit_dt to_epoch year_first year_last s (Some b) = -1"
  using assms by (simp add: from_bit_dt_def)

lemma to_bit_dt_explicit:
  assumes "2 \<le> b" "b \<le> 36" "encode_base n b = Inr s"
  shows "to_bit_dt to_full n tz b = s"
  using assms by (simp add: to_bit_dt_def MODE_FULL_BITDT_def MODE_AUTO_def)

lemma epoch_numeral_round_trip:
  assumes b: "2 \<le> b" "b \<le> 36"
  shows "power_of_two_base b \<or> \<bar>n\<bar> < b ^ INT_MAX_STR_DIGITS \<Longrightarrow>
           from_bit_dt to_epoch year_first year_last (to_bit_dt to_full n tz b) (Some b) = n"
    and "\<not> power_of_two_base b \<Longrightarrow> b ^ INT_MAX_STR_DIGITS \<le> \<bar>n\<bar> \<Longrightarrow>
           from_bit_dt to_epoch year_first year_last (to_bit_dt to_full n tz b) (Some b) = -1"
    and "to_bit_dt to_full 0 tz b = ''0''"
    and "n < 0 \<Longrightarrow> hd (to_bit_dt to_full n tz b) = CHR ''-''"
proof -
  have zero_enc: "encode_base 0 b = Inr ''0''" by (simp add: encode_base_def)
  show zero: "to_bit_dt to_full 0 tz b = ''0''"
    using b zero_enc by (rule to_bit_dt_explicit)
  have zero_int: "py_int ''0'' b = Inr 0"
    using b by (simp add: py_int_def strip_sign_def strip_base_prefix_def py_isspace_def
        digit_value_def INT_MAX_STR_DIGITS_def)
  have pos: "0 < b ^ INT_MAX_STR_DIGITS" using b by simp
  show "from_bit_dt to_epoch year_first year_last (to_bit_dt to_full n tz b) (Some b) = n"
    if fits: "power_of_two_base b \<or> \<bar>n\<bar> < b ^ INT_MAX_STR_DIGITS"
  proof -
    consider "n = 0" | "0 < n" | "n < 0" by linarith
    then show ?thesis
    proof cases
      case 1
      then show ?thesis
        using zero from_bit_dt_explicit [OF b _ zero_int] by simp
    next
      case 2
      with fits have "power_of_two_base b \<or> n < b ^ INT_MAX_STR_DIGITS" by simp
      with encode_base_positive [OF 2 b]
      obtain s where "encode_base n b = Inr s" "py_int s b = Inr n" "s \<noteq> []" by blast
      then show ?thesis
        using to_bit_dt_explicit [OF b, of n s] from_bit_dt_explicit [OF b, of s n] by simp
    next
      case 3
      then have "0 < - n" by simp
      moreover from 3 fits have "power_of_two_base b \<or> - n < b ^ INT_MAX_STR_DIGITS" by simp
      ultimately obtain s where "encode_base (- (- n)) b = Inr (CHR ''-'' # s)"
        "py_int (CHR ''-'' # s) b = Inr (- (- n))"
        using encode_base_positive [OF _ b, of "- n"] by blast
      then have "encode_base n b = Inr (CHR ''-'' # s)" "py_int (CHR ''-'' # s) b = Inr n"
        by simp_all
      then show ?thesis
        using to_bit_dt_explicit [OF b, of n "CHR ''-'' # s"]
          from_bit_dt_explicit [OF b, of "CHR ''-'' # s" n] by simp
    qed
  qed
  show "from_bit_dt to_epoch year_first year_last (to_bit_dt to_full n tz b) (Some b) = -1"
    if np: "\<not> power_of_two_base b" and over: "b ^ INT_MAX_STR_DIGITS \<le> \<bar>n\<bar>"
  proof -
    from over pos have "n \<noteq> 0" by auto
    then consider "0 < n" | "n < 0" by linarith
    then show ?thesis
    proof cases
      case 1
      with np over have "\<not> power_of_two_base b \<and> b ^ INT_MAX_STR_DIGITS \<le> n" by simp
      with encode_base_positive [OF 1 b]
      obtain s where "encode_base n b = Inr s" "py_int s b = Inl ValueError" by blast
      then show ?thesis
        using to_bit_dt_explicit [OF b, of n s] from_bit_dt_explicit_fails [OF b, of s] by simp
    next
      case 2
      then have "0 < - n" by simp
      moreover from 2 np over have "\<not> power_of_two_base b \<and> b ^ INT_MAX_STR_DIGITS \<le> - n"
        by simp
      ultimately obtain s where "encode_base (- (- n)) b = Inr (CHR ''-'' # s)"
        "py_int (CHR ''-'' # s) b = Inl ValueError"
        using encode_base_positive [OF _ b, of "- n"] by blast
      then have "encode_base n b = Inr (CHR ''-'' # s)" by simp
      with \<open>py_int (CHR ''-'' # s) b = Inl ValueError\<close> show ?thesis
        using to_bit_dt_explicit [OF b, of n "CHR ''-'' # s"]
          from_bit_dt_explicit_fails [OF b, of "CHR ''-'' # s"] by simp
    qed
  qed
  show "hd (to_bit_dt to_full n tz b) = CHR ''-''" if "n < 0"
  proof -
    from that have "0 < - n" by simp
    from encode_base_positive [OF this b]
    obtain s where "encode_base (- (- n)) b = Inr (CHR ''-'' # s)" by blast
    then have "encode_base n b = Inr (CHR ''-'' # s)" by simp
    from to_bit_dt_explicit [OF b this] show ?thesis by simp
  qed
qed

lemma small_instant_fits:
  fixes b n :: int
  assumes "\<bar>n\<bar> < 2 ^ 41" and "2 \<le> b"
  shows "\<bar>n\<bar> < b ^ INT_MAX_STR_DIGITS"
proof -
  have "(2::int) ^ 41 \<le> b ^ 41" using assms(2) by (intro power_mono) simp_all
  also have "\<dots> \<le> b ^ INT_MAX_STR_DIGITS"
    using assms(2) by (intro power_increasing) (simp_all add: INT_MAX_STR_DIGITS_def)
  finally show ?thesis using assms(1) by linarith
qed

text \<open>
  Claim C7, with the digit limit of \<open>int\<close>.  For every integer \<open>n\<close> and every base \<open>b\<close> in
  \<open>[2, 36]\<close>: zero is encoded as \<open>0\<close>; a negative number starts with \<open>-\<close>; decoding
  \<open>to_bit_dt(n, timezone, b)\<close> with \<open>from_bit_dt(text, b)\<close> returns \<open>n\<close> when \<open>b\<close> is a power
  of two or \<open>|n| < b ^ 4300\<close>, that is when the numeral has at most 4300 digits, and returns
  \<open>-1\<close> in every other case, where \<open>int\<close> refuses the numeral.  For the instant
  1718323456789 the round trip holds at the bases 2, 10, 16, 32 and 36.
\<close>

theorem epoch_base_round_trip:
  "(2 \<le> b \<and> b \<le> 36 \<longrightarrow>
      to_bit_dt to_full 0 tz b = ''0'' \<and>
      (n < 0 \<longrightarrow> hd (to_bit_dt to_full n tz b) = CHR ''-'') \<and>
      (b \<in> {2, 4, 8, 16, 32} \<or> \<bar>n\<bar> < b ^ INT_MAX_STR_DIGITS \<longrightarrow>
         from_bit_dt to_epoch year_first year_last (to_bit_dt to_full n tz b) (Some b) = n) \<and>
      (b \<notin> {2, 4, 8, 16, 32} \<and> b ^ INT_MAX_STR_DIGITS \<le> \<bar>n\<bar> \<longrightarrow>
         from_bit_dt to_epoch year_first year_last (to_bit_dt to_full n tz b) (Some b) = -1)) \<and>
   list_all (\<lambda>base. from_bit_dt to_epoch year_first year_last
                      (to_bit_dt to_full 1718323456789 tz base) (Some base) = 1718323456789)
     [2, 10, 16, 32, 36] \<and>
   INT_MAX_STR_DIGITS = 4300"
proof (intro conjI)
  show "2 \<le> b \<and> b \<le> 36 \<longrightarrow>
      to_bit_dt to_full 0 tz b = ''0'' \<and>
      (n < 0 \<longrightarrow> hd (to_bit_dt to_full n tz b) = CHR ''-'') \<and>
      (b \<in> {2, 4, 8, 16, 32} \<or> \<bar>n\<bar> < b ^ INT_MAX_STR_DIGITS \<longrightarrow>
         from_bit_dt to_epoch year_first year_last (to_bit_dt to_full n tz b) (Some b) = n) \<and>
      (b \<notin> {2, 4, 8, 16, 32} \<and> b ^ INT_MAX_STR_DIGITS \<le> \<bar>n\<bar> \<longrightarrow>
         from_bit_dt to_epoch year_first year_last (to_bit_dt to_full n tz b) (Some b) = -1)"
  proof (rule impI)
    assume "2 \<le> b \<and> b \<le> 36"
    then have b: "2 \<le> b" "b \<le> 36" by simp_all
    note p = power_of_two_base_iff [OF b, symmetric]
    from epoch_numeral_round_trip(1) [OF b] epoch_numeral_round_trip(2) [OF b]
      epoch_numeral_round_trip(3) [OF b] epoch_numeral_round_trip(4) [OF b]
    show "to_bit_dt to_full 0 tz b = ''0'' \<and>
      (n < 0 \<longrightarrow> hd (to_bit_dt to_full n tz b) = CHR ''-'') \<and>
      (b \<in> {2, 4, 8, 16, 32} \<or> \<bar>n\<bar> < b ^ INT_MAX_STR_DIGITS \<longrightarrow>
         from_bit_dt to_epoch year_first year_last (to_bit_dt to_full n tz b) (Some b) = n) \<and>
      (b \<notin> {2, 4, 8, 16, 32} \<and> b ^ INT_MAX_STR_DIGITS \<le> \<bar>n\<bar> \<longrightarrow>
         from_bit_dt to_epoch year_first year_last (to_bit_dt to_full n tz b) (Some b) = -1)"
      unfolding p by blast
  qed
next
  have trip: "from_bit_dt to_epoch year_first year_last
                (to_bit_dt to_full 1718323456789 tz base) (Some base) = 1718323456789"
    if "2 \<le> base" "base \<le> 36" for base
  proof -
    have "\<bar>1718323456789::int\<bar> < base ^ INT_MAX_STR_DIGITS"
      by (rule small_instant_fits) (use that in simp_all)
    then show ?thesis using epoch_numeral_round_trip(1) [OF that] by blast
  qed
  show "list_all (\<lambda>base. from_bit_dt to_epoch year_first year_last
                      (to_bit_dt to_full 1718323456789 tz base) (Some base) = 1718323456789)
     [2, 10, 16, 32, 36]"
    by (simp add: trip)
next
  show "INT_MAX_STR_DIGITS = 4300" by (simp add: INT_MAX_STR_DIGITS_def)
qed

theorem epoch_base_round_trip_witness:
  "(2::int) \<le> 7 \<and> (7::int) \<le> 36 \<and> (-1718323456789::int) < 0 \<and>
   \<bar>-1718323456789::int\<bar> < 7 ^ INT_MAX_STR_DIGITS \<and>
   to_bit_dt no_full_text 0 None 7 = ''0'' \<and>
   hd (to_bit_dt no_full_text (-1718323456789) None 7) = CHR ''-'' \<and>
   from_bit_dt no_calendar 2024 2024
     (to_bit_dt no_full_text (-1718323456789) None 7) (Some 7) = -1718323456789 \<and>
   (7::int) \<notin> {2, 4, 8, 16, 32} \<and>
   (7::int) ^ INT_MAX_STR_DIGITS \<le> \<bar>7 ^ INT_MAX_STR_DIGITS\<bar> \<and>
   from_bit_dt no_calendar 2024 2024
     (to_bit_dt no_full_text (7 ^ INT_MAX_STR_DIGITS) None 7) (Some 7) = -1"
proof -
  have fits: "\<bar>-1718323456789::int\<bar> < 7 ^ INT_MAX_STR_DIGITS"
    by (rule small_instant_fits) simp_all
  have over: "(7::int) ^ INT_MAX_STR_DIGITS \<le> \<bar>7 ^ INT_MAX_STR_DIGITS\<bar>"
    by simp
  from fits
    epoch_base_round_trip [where b = 7 and n = "-1718323456789" and to_full = no_full_text
      and tz = None and to_epoch = no_calendar and year_first = 2024 and year_last = 2024]
  have small: "to_bit_dt no_full_text 0 None 7 = ''0'' \<and>
    hd (to_bit_dt no_full_text (-1718323456789) None 7) = CHR ''-'' \<and>
    from_bit_dt no_calendar 2024 2024
      (to_bit_dt no_full_text (-1718323456789) None 7) (Some 7) = -1718323456789"
    by simp
  from over
    epoch_base_round_trip [where b = 7 and n = "7 ^ INT_MAX_STR_DIGITS"
      and to_full = no_full_text and tz = None and to_epoch = no_calendar
      and year_first = 2024 and year_last = 2024]
  have large: "from_bit_dt no_calendar 2024 2024
     (to_bit_dt no_full_text (7 ^ INT_MAX_STR_DIGITS) None 7) (Some 7) = -1"
    by simp
  from fits over small large show ?thesis by simp
qed

theorem epoch_base_round_trip_counterexample:
  "from_bit_dt no_calendar 2024 2024
     (to_bit_dt no_full_text (10 ^ INT_MAX_STR_DIGITS) None 10) (Some 10) = -1 \<and>
   from_bit_dt no_calendar 2024 2024
     (to_bit_dt no_full_text (10 ^ INT_MAX_STR_DIGITS) None 10) (Some 10)
     \<noteq> 10 ^ INT_MAX_STR_DIGITS \<and>
   INT_MAX_STR_DIGITS = 4300"
proof -
  have np: "\<not> power_of_two_base 10"
    using power_of_two_base_iff [of 10] by simp
  have over: "(10::int) ^ INT_MAX_STR_DIGITS \<le> \<bar>10 ^ INT_MAX_STR_DIGITS\<bar>"
    by simp
  have failed: "from_bit_dt no_calendar 2024 2024
     (to_bit_dt no_full_text (10 ^ INT_MAX_STR_DIGITS) None 10) (Some 10) = -1"
    by (rule epoch_numeral_round_trip(2) [OF _ _ np over]) simp_all
  have "(0::int) < 10 ^ INT_MAX_STR_DIGITS" by simp
  then have differs: "(-1::int) \<noteq> 10 ^ INT_MAX_STR_DIGITS" by linarith
  have limit: "INT_MAX_STR_DIGITS = 4300" by (simp add: INT_MAX_STR_DIGITS_def)
  from failed differs limit show ?thesis by (simp only: simp_thms)
qed

section \<open>Decoding without an explicit base\<close>

lemma base36_symbol_facts:
  "\<forall>c. py_upper_char c \<in> set BASE36_CHARS \<longrightarrow>
        0 \<le> digit_value c \<and> digit_value c < 36 \<and> c \<noteq> CHR ''_'' \<and> \<not> py_isspace c \<and>
        c \<noteq> CHR ''+'' \<and> c \<noteq> CHR ''-''"
  by code_simp












lemma shape_symbols:
  assumes "spec_numeral_shape s"
  shows "s \<noteq> []"
    and "\<forall>c \<in> set s. 0 \<le> digit_value c \<and> digit_value c < 36 \<and> c \<noteq> CHR ''_'' \<and>
           \<not> py_isspace c \<and> c \<noteq> CHR ''+'' \<and> c \<noteq> CHR ''-''"
    and "length s \<le> INT_MAX_STR_DIGITS"
proof -
  from assms have len: "6 \<le> length s" "length s \<le> 12"
    and up: "\<forall>c \<in> set s. py_upper_char c \<in> set BASE36_CHARS"
    by (simp_all add: spec_numeral_shape_def list_all_iff)
  from len show "s \<noteq> []" by auto
  from len show "length s \<le> INT_MAX_STR_DIGITS" by (simp add: INT_MAX_STR_DIGITS_def)
  from up base36_symbol_facts
  show "\<forall>c \<in> set s. 0 \<le> digit_value c \<and> digit_value c < 36 \<and> c \<noteq> CHR ''_'' \<and>
           \<not> py_isspace c \<and> c \<noteq> CHR ''+'' \<and> c \<noteq> CHR ''-''"
    by blast
qed


lemma py_int_shape:
  assumes shape: "spec_numeral_shape s" and b: "2 \<le> b" "b \<le> 36"
    and dig: "\<forall>c \<in> set s. digit_value c < b"
  shows "py_int s b = Inr (foldl (\<lambda>v c. v * b + digit_value c) 0 s)"
proof -
  note sym = shape_symbols [OF shape]
  from sym(2) dig have "\<forall>c \<in> set s. 0 \<le> digit_value c \<and> digit_value c < b" by blast
  from py_int_digits(1) [OF b this sym(1)] sym(3) show ?thesis by simp
qed

lemma py_int_base36_succeeds:
  assumes "spec_numeral_shape s"
  shows "\<exists>v. py_int s 36 = Inr v"
  using py_int_shape [OF assms, of 36] shape_symbols(2) [OF assms] by simp














section \<open>The timezone affix of an encoded text\<close>

lemma scan_timezone_skip:
  "n \<le> length s \<Longrightarrow> k \<le> n \<Longrightarrow>
   (\<forall>i. k \<le> i \<and> i < n \<longrightarrow> s ! i \<noteq> UTC_PLUS \<and> s ! i \<noteq> UTC_MINUS) \<Longrightarrow>
   scan_timezone s n = scan_timezone s k"
proof (induction n)
  case 0
  then show ?case by simp
next
  case (Suc n)
  show ?case
  proof (cases "k = Suc n")
    case True
    then show ?thesis by simp
  next
    case False
    with Suc.prems have k: "k \<le> n" and n: "n < length s" by simp_all
    from Suc.prems k have here: "s ! n \<noteq> UTC_PLUS \<and> s ! n \<noteq> UTC_MINUS" by simp
    from Suc.prems have rest: "\<forall>i. k \<le> i \<and> i < n \<longrightarrow> s ! i \<noteq> UTC_PLUS \<and> s ! i \<noteq> UTC_MINUS"
      by simp
    have "scan_timezone s (Suc n) = scan_timezone s n"
      using here by (simp add: py_index_nat [OF n])
    also have "\<dots> = scan_timezone s k"
      using n k rest by (intro Suc.IH) simp_all
    finally show ?thesis .
  qed
qed

lemma parse_timezone_none:
  assumes "\<forall>c \<in> set s. c \<noteq> UTC_PLUS \<and> c \<noteq> UTC_MINUS"
  shows "parse_timezone (Some s) = Inr None"
proof (cases "s = [] \<or> length s < 2")
  case True
  then show ?thesis by (simp add: parse_timezone_def)
next
  case False
  then have last: "py_index s (-1) = Inr (s ! (length s - 1))"
    by (simp add: py_index_def Let_def nat_diff_distrib' of_nat_diff)
  from False have "s ! (length s - 1) \<in> set s" by simp
  with assms have nl: "s ! (length s - 1) \<noteq> UTC_PLUS" "s ! (length s - 1) \<noteq> UTC_MINUS"
    by blast+
  have "scan_timezone s (length s) = scan_timezone s 0"
    using assms by (intro scan_timezone_skip) simp_all
  with False last nl show ?thesis by (simp add: parse_timezone_def)
qed

lemma parse_timezone_affix:
  assumes body: "\<forall>c \<in> set a. c \<noteq> UTC_PLUS \<and> c \<noteq> UTC_MINUS"
    and sign: "sg = UTC_PLUS \<or> sg = UTC_MINUS"
    and digits: "\<forall>c \<in> set ds. c \<in> set TIMEZONE_DIGITS"
    and len: "length ds = 2 \<or> length ds = 4"
  shows "parse_timezone (Some (a @ sg # ds)) = Inr (Some (sg # ds))"
proof -
  define s where "s = a @ sg # ds"
  have dig_plain: "\<And>c. c \<in> set TIMEZONE_DIGITS \<Longrightarrow> c \<noteq> UTC_PLUS \<and> c \<noteq> UTC_MINUS"
    by (auto simp: TIMEZONE_DIGITS_def UTC_PLUS_def UTC_MINUS_def)
  have ds_ne: "ds \<noteq> []" using len by auto
  have long: "\<not> (s = [] \<or> length s < 2)" using ds_ne by (cases ds) (simp_all add: s_def)
  have lastc: "s ! (length s - 1) = last ds"
    using ds_ne by (simp add: s_def last_conv_nth nth_append nth_Cons')
  have last: "py_index s (-1) = Inr (last ds)"
    using long lastc by (simp add: py_index_def Let_def nat_diff_distrib' of_nat_diff)
  have "last ds \<in> set ds" using ds_ne by simp
  with digits dig_plain have nl: "last ds \<noteq> UTC_PLUS" "last ds \<noteq> UTC_MINUS" by blast+
  have tail: "\<forall>i. Suc (length a) \<le> i \<and> i < length s \<longrightarrow>
                 s ! i \<noteq> UTC_PLUS \<and> s ! i \<noteq> UTC_MINUS"
  proof (intro allI impI)
    fix i assume i: "Suc (length a) \<le> i \<and> i < length s"
    then have "s ! i = ds ! (i - Suc (length a))" and "i - Suc (length a) < length ds"
      by (auto simp: s_def nth_append nth_Cons')
    then have "s ! i \<in> set ds" by simp
    with digits dig_plain show "s ! i \<noteq> UTC_PLUS \<and> s ! i \<noteq> UTC_MINUS" by blast
  qed
  have skip: "scan_timezone s (length s) = scan_timezone s (Suc (length a))"
    using tail by (intro scan_timezone_skip) (simp_all add: s_def)
  have at: "py_index s (int (length a)) = Inr sg"
    using py_index_nat [of "length a" s] by (simp add: s_def)
  have valid: "is_valid_timezone (sg # ds) = Inr True"
    using sign digits len ds_ne
    by (auto simp: is_valid_timezone_def py_index_def Let_def list_all_iff)
  have "scan_timezone s (Suc (length a)) = Inr (Some (sg # ds))"
    using sign at valid by (auto simp: Let_def s_def)
  with skip long last nl show ?thesis
    unfolding s_def [symmetric] by (simp add: parse_timezone_def)
qed

section \<open>The compressed body of an encoded text\<close>

lemma compress_loop_step:
  "c \<noteq> CHR ''0'' \<Longrightarrow>
   compress_loop (c # s) acc zc = compress_loop s (flush_run (acc, zc) @ [c]) 0"
  by (simp add: flush_run_def)

lemma flush_run_acc: "flush_run (acc, zc) = acc @ flush_run ([], zc)"
  by (simp add: flush_run_def)

lemma compress_loop_output:
  "flush_run (compress_loop s acc zc) = acc @ flush_run (compress_loop s [] zc)"
proof (induction s arbitrary: acc zc)
  case Nil
  show ?case by (simp add: flush_run_def)
next
  case (Cons c s)
  show ?case
  proof (cases "c = CHR ''0''")
    case True
    then show ?thesis using Cons.IH [of acc "zc + 1"] by simp
  next
    case False
    have "flush_run (compress_loop (c # s) acc zc)
            = (flush_run (acc, zc) @ [c]) @ flush_run (compress_loop s [] 0)"
      unfolding compress_loop_step [OF False] by (rule Cons.IH)
    also have "\<dots> = acc @ ((flush_run ([], zc) @ [c]) @ flush_run (compress_loop s [] 0))"
      by (subst flush_run_acc) simp
    also have "(flush_run ([], zc) @ [c]) @ flush_run (compress_loop s [] 0)
                 = flush_run (compress_loop (c # s) [] zc)"
      unfolding compress_loop_step [OF False] by (rule Cons.IH [symmetric])
    finally show ?thesis .
  qed
qed

lemma compress_zeros_Cons:
  assumes "c \<noteq> CHR ''0''"
  shows "compress_zeros (c # s) = c # compress_zeros s"
proof -
  have "compress_zeros (c # s) = flush_run (compress_loop s (flush_run ([], 0) @ [c]) 0)"
    unfolding compress_zeros_flush compress_loop_step [OF assms] ..
  also have "flush_run ([], 0) @ [c] = [c]" by (simp add: flush_run_def)
  also have "flush_run (compress_loop s [c] 0) = [c] @ flush_run (compress_loop s [] 0)"
    by (rule compress_loop_output)
  finally show ?thesis by (simp add: compress_zeros_flush)
qed

lemma set_encode_zero_run: "set (encode_zero_run n) \<subseteq> set ''0.:;?!&''"
  by (auto simp: encode_zero_run_def)

lemma set_flush_run: "set (flush_run (acc, zc)) \<subseteq> set acc \<union> set ''0.:;?!&''"
proof (cases "0 < zc")
  case True
  then have "flush_run (acc, zc) = acc @ encode_zero_run zc" by (simp add: flush_run_def)
  with set_encode_zero_run [of zc] show ?thesis by auto
next
  case False
  then have "flush_run (acc, zc) = acc" by (simp add: flush_run_def)
  then show ?thesis by auto
qed

lemma set_compress_loop:
  "set (flush_run (compress_loop s acc zc)) \<subseteq> set acc \<union> set s \<union> set ''0.:;?!&''"
proof (induction s arbitrary: acc zc)
  case Nil
  show ?case using set_flush_run [of acc zc] by auto
next
  case (Cons c s)
  show ?case
  proof (cases "c = CHR ''0''")
    case True
    have "compress_loop (c # s) acc zc = compress_loop s acc (zc + 1)"
      using True by simp
    with Cons.IH [of acc "zc + 1"] show ?thesis by auto
  next
    case False
    have "set (flush_run (compress_loop (c # s) acc zc))
            \<subseteq> set (flush_run (acc, zc) @ [c]) \<union> set s \<union> set ''0.:;?!&''"
      unfolding compress_loop_step [OF False] by (rule Cons.IH)
    with set_flush_run [of acc zc] show ?thesis by auto
  qed
qed

lemma set_compress_zeros: "set (compress_zeros s) \<subseteq> set s \<union> set ''0.:;?!&''"
  using set_compress_loop [of s "[]" 0] by (simp add: compress_zeros_flush)

section \<open>The field alphabets\<close>

lemma alphabet_lengths:
  "length MONTHS = 12" "length DAYS = 31" "length HOURS = 24" "length MINUTES = 60"
  "length YEAR_CHARS = 61"
  by (simp_all add: MONTHS_def DAYS_def HOURS_def MINUTES_def YEAR_CHARS_def)

lemma alphabets_distinct:
  "distinct MONTHS" "distinct DAYS" "distinct HOURS" "distinct MINUTES" "distinct YEAR_CHARS"
  by (simp_all add: MONTHS_def DAYS_def HOURS_def MINUTES_def YEAR_CHARS_def)

lemma alphabets_without_zero:
  "CHR ''0'' \<notin> set MONTHS" "CHR ''0'' \<notin> set DAYS" "CHR ''0'' \<notin> set HOURS"
  "CHR ''0'' \<notin> set MINUTES" "CHR ''0'' \<notin> set YEAR_CHARS"
  "CHR ''0'' \<notin> set FIRST_CHAR" "CHR ''0'' \<notin> set SECOND_CHAR"
  by (simp_all add: MONTHS_def DAYS_def HOURS_def MINUTES_def YEAR_CHARS_def FIRST_CHAR_def
      SECOND_CHAR_def)

lemma millis_symbols_are_year_symbols:
  "set FIRST_CHAR \<subseteq> set YEAR_CHARS" "set SECOND_CHAR \<subseteq> set YEAR_CHARS"
  by (simp_all add: FIRST_CHAR_def SECOND_CHAR_def YEAR_CHARS_def)

lemma field_symbol_valid:
  assumes "c \<in> {CHR ''0''} \<union> set YEAR_CHARS \<union> set MONTHS \<union> set DAYS \<union> set HOURS \<union>
             set MINUTES \<union> set FIRST_CHAR \<union> set SECOND_CHAR"
  shows "is_valid_encoded_char c"
  using assms millis_symbols_are_year_symbols
  by (auto simp: is_valid_encoded_char_def)

lemma signs_are_no_field_symbols:
  "UTC_PLUS \<notin> {CHR ''0''} \<union> set YEAR_CHARS \<union> set MONTHS \<union> set DAYS \<union> set HOURS \<union>
     set MINUTES \<union> set FIRST_CHAR \<union> set SECOND_CHAR \<union> set ''0.:;?!&''"
  "UTC_MINUS \<notin> {CHR ''0''} \<union> set YEAR_CHARS \<union> set MONTHS \<union> set DAYS \<union> set HOURS \<union>
     set MINUTES \<union> set FIRST_CHAR \<union> set SECOND_CHAR \<union> set ''0.:;?!&''"
  by (simp_all add: YEAR_CHARS_def MONTHS_def DAYS_def HOURS_def MINUTES_def FIRST_CHAR_def
      SECOND_CHAR_def UTC_PLUS_def UTC_MINUS_def)

lemma field_symbol_no_sign:
  assumes "c \<in> {CHR ''0''} \<union> set YEAR_CHARS \<union> set MONTHS \<union> set DAYS \<union> set HOURS \<union>
             set MINUTES \<union> set FIRST_CHAR \<union> set SECOND_CHAR \<union> set ''0.:;?!&''"
  shows "c \<noteq> UTC_PLUS \<and> c \<noteq> UTC_MINUS"
proof (rule conjI)
  show "c \<noteq> UTC_PLUS"
  proof
    assume "c = UTC_PLUS"
    with assms signs_are_no_field_symbols(1) show False by (simp only:) 
  qed
  show "c \<noteq> UTC_MINUS"
  proof
    assume "c = UTC_MINUS"
    with assms signs_are_no_field_symbols(2) show False by (simp only:)
  qed
qed

section \<open>Field codecs\<close>

lemma nth_alphabet:
  "0 \<le> v \<Longrightarrow> v < int (length A) \<Longrightarrow> A ! nat v \<in> set A"
  by simp

lemma symbol_codec:
  assumes "distinct A" "CHR ''0'' \<notin> set A"
    and "case vo of None \<Rightarrow> True | Some v \<Rightarrow> 0 \<le> v \<and> v < int (length A)"
  shows "\<exists>c. encode_symbol A vo = Inr c \<and> c \<in> insert (CHR ''0'') (set A) \<and>
             (\<forall>E pos. pos < length E \<and> E ! pos = c \<longrightarrow>
                decode_symbol A E pos = Inr (case vo of None \<Rightarrow> -1 | Some v \<Rightarrow> v, pos + 1))"
proof (cases vo)
  case None
  then show ?thesis
    by (simp add: encode_symbol_def decode_symbol_def py_index_nat)
next
  case (Some v)
  with assms(3) have v: "0 \<le> v" "v < int (length A)" by simp_all
  define c where "c = A ! nat v"
  have c_in: "c \<in> set A" unfolding c_def using v by (rule nth_alphabet)
  with assms(2) have nz: "c \<noteq> CHR ''0''" by auto
  have enc: "encode_symbol A vo = Inr c"
    using v Some by (simp add: encode_symbol_def py_index_in_range c_def)
  have "py_find A (A ! nat v) = int (nat v)"
    using assms(1) v by (intro py_find_nth) simp_all
  then have find: "py_find A c = v" using v by (simp add: c_def)
  have "decode_symbol A E pos = Inr (v, pos + 1)" if "pos < length E" "E ! pos = c" for E pos
    using that nz find v by (simp add: decode_symbol_def py_index_nat Let_def)
  with enc c_in Some show ?thesis by auto
qed

lemma day_codec:
  assumes "1 \<le> d" "d \<le> 31"
  shows "\<exists>c. encode_day_symbol (Some d) = Inr c \<and> c \<in> set DAYS \<and>
             (\<forall>E pos. pos < length E \<and> E ! pos = c \<longrightarrow>
                decode_day_field E pos = Inr (d, pos + 1))"
proof -
  define c where "c = DAYS ! nat (d - 1)"
  have r: "0 \<le> d - 1" "d - 1 < int (length DAYS)" using assms by (simp_all add: alphabet_lengths)
  have c_in: "c \<in> set DAYS" unfolding c_def using r by (rule nth_alphabet)
  with alphabets_without_zero have nz: "c \<noteq> CHR ''0''" by auto
  have enc: "encode_day_symbol (Some d) = Inr c"
    using assms r by (simp add: encode_day_symbol_def py_index_in_range c_def alphabet_lengths)
  have "py_find DAYS (DAYS ! nat (d - 1)) = int (nat (d - 1))"
    using alphabets_distinct(2) r by (intro py_find_nth) simp_all
  then have find: "py_find DAYS c = d - 1" using r by (simp add: c_def)
  have "decode_day_field E pos = Inr (d, pos + 1)" if "pos < length E" "E ! pos = c" for E pos
    using that nz find assms by (simp add: decode_day_field_def py_index_nat Let_def)
  with enc c_in show ?thesis by auto
qed

lemma year_digits:
  fixes y :: int
  assumes "0 \<le> y" "y \<le> 226980"
  shows "0 \<le> y div (61 * 61)" "y div (61 * 61) < 61" "0 \<le> (y div 61) mod 61"
    "(y div 61) mod 61 < 61" "0 \<le> y mod 61" "y mod 61 < 61"
    "y div (61 * 61) * 61 * 61 + (y div 61) mod 61 * 61 + y mod 61 = y"
proof -
  show "0 \<le> y div (61 * 61)" "y div (61 * 61) < 61" using assms by simp_all
  show "0 \<le> (y div 61) mod 61" "(y div 61) mod 61 < 61" "0 \<le> y mod 61" "y mod 61 < 61"
    by simp_all
  define q where "q = y div 61"
  define a where "a = q div 61"
  define b where "b = q mod 61"
  define c where "c = y mod 61"
  have a: "y div (61 * 61) = a"
    unfolding a_def q_def by (simp add: zdiv_zmult2_eq)
  have "a * 61 + b = q" unfolding a_def b_def by (rule div_mult_mod_eq)
  moreover have "q * 61 + c = y" unfolding q_def c_def by (rule div_mult_mod_eq)
  ultimately have "(a * 61 + b) * 61 + c = y" by simp
  then have "a * 61 * 61 + b * 61 + c = y" by (simp add: distrib_right)
  then show "y div (61 * 61) * 61 * 61 + (y div 61) mod 61 * 61 + y mod 61 = y"
    unfolding a b_def c_def q_def .
qed

lemma year_codec:
  assumes "0 \<le> y" "y \<le> 226980"
  shows "\<exists>y0 y1 y2. encode_year_code (Some y) = Inr [y0, y1, y2] \<and>
           y0 \<in> set YEAR_CHARS \<and> y1 \<in> set YEAR_CHARS \<and> y2 \<in> set YEAR_CHARS \<and>
           (\<forall>rest. decode_year_field (y0 # y1 # y2 # rest) 0 = Inr (y, 3))"
proof -
  note yd = year_digits [OF assms]
  define a where "a = y div (61 * 61)"
  define b where "b = (y div 61) mod 61"
  define c where "c = y mod 61"
  have r: "0 \<le> a" "a < int (length YEAR_CHARS)" "0 \<le> b" "b < int (length YEAR_CHARS)"
    "0 \<le> c" "c < int (length YEAR_CHARS)"
    using yd by (simp_all add: a_def b_def c_def alphabet_lengths)
  define y0 where "y0 = YEAR_CHARS ! nat a"
  define y1 where "y1 = YEAR_CHARS ! nat b"
  define y2 where "y2 = YEAR_CHARS ! nat c"
  have mem: "y0 \<in> set YEAR_CHARS" "y1 \<in> set YEAR_CHARS" "y2 \<in> set YEAR_CHARS"
    unfolding y0_def y1_def y2_def using r by (simp_all only: nth_alphabet)
  with alphabets_without_zero have nz: "y0 \<noteq> CHR ''0''" by auto
  have a': "y div 3721 = a" by (simp add: a_def)
  have enc: "encode_year_code (Some y) = Inr [y0, y1, y2]"
    using assms r
    by (simp add: encode_year_code_def encode_year_def py_index_in_range
        a' b_def [symmetric] c_def [symmetric] y0_def y1_def y2_def)
  have f: "py_find YEAR_CHARS y0 = a" "py_find YEAR_CHARS y1 = b" "py_find YEAR_CHARS y2 = c"
    using py_find_nth [OF alphabets_distinct(5), of "nat a"]
      py_find_nth [OF alphabets_distinct(5), of "nat b"]
      py_find_nth [OF alphabets_distinct(5), of "nat c"] r
    by (simp_all add: y0_def y1_def y2_def)
  have sum: "a * 61 * 61 + b * 61 + c = y"
    using yd(7) by (simp add: a_def b_def c_def)
  have dec: "decode_year [y0, y1, y2] = Inr y"
    using f r sum by (simp add: decode_year_def py_index_def Let_def)
  have "decode_year_field (y0 # y1 # y2 # rest) 0 = Inr (y, 3)" for rest
    using nz dec assms by (simp add: decode_year_field_def py_index_def py_slice_def)
  with enc mem show ?thesis by blast
qed

lemma millis_codec:
  assumes "case mso of None \<Rightarrow> True | Some ms \<Rightarrow> 0 \<le> ms \<and> ms \<le> 999"
  shows "\<exists>mc. encode_millis_code mso = Inr mc \<and>
           set mc \<subseteq> {CHR ''0''} \<union> set FIRST_CHAR \<union> set SECOND_CHAR \<and> mc \<noteq> [] \<and>
           (\<forall>pre. decode_millis_field (pre @ mc) (length pre)
                     = Inr (case mso of None \<Rightarrow> 0 | Some ms \<Rightarrow> ms, length pre + length mc))"
proof -
  have zero: "decode_millis_field (pre @ ''0'') (length pre) = Inr (0, length pre + 1)" for pre
    by (simp add: decode_millis_field_def py_index_nat)
  show ?thesis
  proof (cases mso)
    case None
    then show ?thesis using zero by (simp add: encode_millis_code_def)
  next
    case (Some ms)
    with assms have ms: "0 \<le> ms" "ms \<le> 999" by simp_all
    show ?thesis
    proof (cases "ms = 0")
      case True
      with Some show ?thesis using zero by (simp add: encode_millis_code_def)
    next
      case False
      define f where "f = FIRST_CHAR ! nat (ms div 25)"
      define g where "g = SECOND_CHAR ! nat (ms mod 25)"
      have enc: "encode_millis_code mso = Inr [f, g]"
        using Some ms False encode_milliseconds_in_range [OF ms]
        by (simp add: encode_millis_code_def f_def g_def)
      have dec: "decode_milliseconds [f, g] = Inr ms"
        unfolding f_def g_def using ms by (rule decode_encode_milliseconds)
      have "nat (ms div 25) < length FIRST_CHAR" "nat (ms mod 25) < length SECOND_CHAR"
        using ms by (simp_all add: length_FIRST_CHAR length_SECOND_CHAR)
      then have mem: "f \<in> set FIRST_CHAR" "g \<in> set SECOND_CHAR"
        by (simp_all add: f_def g_def)
      with alphabets_without_zero have nz: "f \<noteq> CHR ''0''" by auto
      have "decode_millis_field (pre @ [f, g]) (length pre)
              = Inr (ms, length pre + length [f, g])" for pre
        using nz dec False ms
        by (simp add: decode_millis_field_def py_index_nat py_slice_def)
      with enc mem Some show ?thesis by auto
    qed
  qed
qed

section \<open>Decoding an encoded date-time\<close>

lemma absent_as_zero_field:
  assumes "case vo of None \<Rightarrow> True | Some v \<Rightarrow> 0 \<le> v \<and> v \<le> bound"
  shows "absent_as_zero (case vo of None \<Rightarrow> -1 | Some v \<Rightarrow> v)
           = (case vo of None \<Rightarrow> 0 | Some v \<Rightarrow> v)"
  using assms by (cases vo) (auto simp: absent_as_zero_def)

lemma symbol_range:
  fixes bound n :: int
  assumes "case vo of None \<Rightarrow> True | Some v \<Rightarrow> 0 \<le> v \<and> v \<le> bound" and "bound < n"
  shows "case vo of None \<Rightarrow> True | Some v \<Rightarrow> 0 \<le> v \<and> v < n"
  using assms by (cases vo) auto

lemma decode_encode_date_time:
  assumes y: "0 \<le> y" "y \<le> 226980" and m: "0 \<le> m" "m \<le> 11" and d: "1 \<le> d" "d \<le> 31"
    and ho: "case ho of None \<Rightarrow> True | Some v \<Rightarrow> 0 \<le> v \<and> v \<le> 23"
    and mio: "case mio of None \<Rightarrow> True | Some v \<Rightarrow> 0 \<le> v \<and> v \<le> 59"
    and so: "case so of None \<Rightarrow> True | Some v \<Rightarrow> 0 \<le> v \<and> v \<le> 59"
    and mso: "case mso of None \<Rightarrow> True | Some v \<Rightarrow> 0 \<le> v \<and> v \<le> 999"
    and tzo: "case tzo of None \<Rightarrow> True
              | Some t \<Rightarrow> \<exists>sg ds. t = sg # ds \<and> (sg = UTC_PLUS \<or> sg = UTC_MINUS) \<and>
                           (\<forall>c \<in> set ds. c \<in> set TIMEZONE_DIGITS) \<and>
                           (length ds = 2 \<or> length ds = 4)"
  shows "decode (Some (encode_date_time (Some y) (Some m) (Some d) ho mio so mso tzo))
           = Inr (from_primitives y m d
                   (case ho of None \<Rightarrow> 0 | Some v \<Rightarrow> v)
                   (case mio of None \<Rightarrow> 0 | Some v \<Rightarrow> v)
                   (case so of None \<Rightarrow> 0 | Some v \<Rightarrow> v)
                   (case mso of None \<Rightarrow> 0 | Some v \<Rightarrow> v) tzo)"
proof -
  from year_codec [OF y] obtain y0 y1 y2 where
    yenc: "encode_year_code (Some y) = Inr [y0, y1, y2]" and
    ymem: "y0 \<in> set YEAR_CHARS" "y1 \<in> set YEAR_CHARS" "y2 \<in> set YEAR_CHARS" and
    ydec: "\<And>rest. decode_year_field (y0 # y1 # y2 # rest) 0 = Inr (y, 3)"
    by blast
  have mr: "case Some m of None \<Rightarrow> True | Some v \<Rightarrow> 0 \<le> v \<and> v < int (length MONTHS)"
    using m by (simp add: alphabet_lengths)
  from symbol_codec [OF alphabets_distinct(1) alphabets_without_zero(1) mr] obtain mc where
    menc: "encode_symbol MONTHS (Some m) = Inr mc" and
    mmem: "mc \<in> insert (CHR ''0'') (set MONTHS)" and
    mdec: "\<And>E pos. pos < length E \<Longrightarrow> E ! pos = mc \<Longrightarrow>
             decode_symbol MONTHS E pos = Inr (m, pos + 1)"
    by auto
  from day_codec [OF d] obtain dc where
    denc: "encode_day_symbol (Some d) = Inr dc" and
    dmem: "dc \<in> set DAYS" and
    ddec: "\<And>E pos. pos < length E \<Longrightarrow> E ! pos = dc \<Longrightarrow>
             decode_day_field E pos = Inr (d, pos + 1)"
    by blast
  have hr: "case ho of None \<Rightarrow> True | Some v \<Rightarrow> 0 \<le> v \<and> v < int (length HOURS)"
    using ho by (rule symbol_range) (simp add: alphabet_lengths)
  from symbol_codec [OF alphabets_distinct(3) alphabets_without_zero(3) hr] obtain hc where
    henc: "encode_symbol HOURS ho = Inr hc" and
    hmem: "hc \<in> insert (CHR ''0'') (set HOURS)" and
    hdec: "\<And>E pos. pos < length E \<Longrightarrow> E ! pos = hc \<Longrightarrow>
             decode_symbol HOURS E pos = Inr (case ho of None \<Rightarrow> -1 | Some v \<Rightarrow> v, pos + 1)"
    by blast
  have mir: "case mio of None \<Rightarrow> True | Some v \<Rightarrow> 0 \<le> v \<and> v < int (length MINUTES)"
    using mio by (rule symbol_range) (simp add: alphabet_lengths)
  from symbol_codec [OF alphabets_distinct(4) alphabets_without_zero(4) mir] obtain mic where
    mienc: "encode_symbol MINUTES mio = Inr mic" and
    mimem: "mic \<in> insert (CHR ''0'') (set MINUTES)" and
    midec: "\<And>E pos. pos < length E \<Longrightarrow> E ! pos = mic \<Longrightarrow>
             decode_symbol MINUTES E pos
               = Inr (case mio of None \<Rightarrow> -1 | Some v \<Rightarrow> v, pos + 1)"
    by blast
  have sr: "case so of None \<Rightarrow> True | Some v \<Rightarrow> 0 \<le> v \<and> v < int (length MINUTES)"
    using so by (rule symbol_range) (simp add: alphabet_lengths)
  from symbol_codec [OF alphabets_distinct(4) alphabets_without_zero(4) sr] obtain sc where
    senc: "encode_symbol MINUTES so = Inr sc" and
    smem: "sc \<in> insert (CHR ''0'') (set MINUTES)" and
    sdec: "\<And>E pos. pos < length E \<Longrightarrow> E ! pos = sc \<Longrightarrow>
             decode_symbol MINUTES E pos
               = Inr (case so of None \<Rightarrow> -1 | Some v \<Rightarrow> v, pos + 1)"
    by blast
  from millis_codec [OF mso] obtain msc where
    msenc: "encode_millis_code mso = Inr msc" and
    msmem: "set msc \<subseteq> {CHR ''0''} \<union> set FIRST_CHAR \<union> set SECOND_CHAR" and
    msne: "msc \<noteq> []" and
    msdec: "\<And>pre. decode_millis_field (pre @ msc) (length pre)
              = Inr (case mso of None \<Rightarrow> 0 | Some v \<Rightarrow> v, length pre + length msc)"
    by blast
  define E where "E = y0 # y1 # y2 # mc # dc # hc # mic # sc # msc"
  define body where "body = compress_zeros E"
  define affix where "affix = (case tzo of None \<Rightarrow> [] | Some t \<Rightarrow> t)"
  have affix_ne: "tzo = Some t \<Longrightarrow> t \<noteq> []" for t using tzo by auto
  have enc: "encode_date_time (Some y) (Some m) (Some d) ho mio so mso tzo = body @ affix"
    using affix_ne
    by (simp add: encode_date_time_def yenc menc denc henc mienc senc msenc E_def body_def
        affix_def split: option.splits)
  have E_set: "set E \<subseteq> {CHR ''0''} \<union> set YEAR_CHARS \<union> set MONTHS \<union> set DAYS \<union> set HOURS \<union>
                 set MINUTES \<union> set FIRST_CHAR \<union> set SECOND_CHAR"
    using ymem mmem dmem hmem mimem smem msmem unfolding E_def by auto
  have E_plain: "set E \<inter> set ''.:;?!&'' = {}"
  proof (rule ccontr)
    assume "set E \<inter> set ''.:;?!&'' \<noteq> {}"
    then obtain c where c: "c \<in> set E" "c \<in> set ''.:;?!&''" by blast
    from c(1) E_set
    have "c \<in> {CHR ''0''} \<union> set YEAR_CHARS \<union> set MONTHS \<union> set DAYS \<union> set HOURS \<union>
                 set MINUTES \<union> set FIRST_CHAR \<union> set SECOND_CHAR"
      by (rule subsetD [rotated])
    from field_symbols_plain [OF this] c(2) show False by contradiction
  qed
  have expand: "expand_zeros body = E"
    using expand_compress_loop [OF E_plain, of "[]" 0]
    by (simp add: body_def compress_zeros_flush expand_zeros_Nil)
  have ynz: "y0 \<noteq> CHR ''0''" "y1 \<noteq> CHR ''0''" "y2 \<noteq> CHR ''0''"
    using ymem alphabets_without_zero(5) by auto
  have body_eq: "body = y0 # y1 # y2 # compress_zeros (mc # dc # hc # mic # sc # msc)"
    unfolding body_def E_def by (simp only: compress_zeros_Cons [OF ynz(1)]
        compress_zeros_Cons [OF ynz(2)] compress_zeros_Cons [OF ynz(3)])
  have body_ne: "body \<noteq> []" and body_hd: "body ! 0 = y0" and body_len: "\<not> length body < 3"
    by (simp_all add: body_eq)
  have body_plain: "\<forall>c \<in> set body. c \<noteq> UTC_PLUS \<and> c \<noteq> UTC_MINUS"
  proof
    fix c assume "c \<in> set body"
    with set_compress_zeros [of E] have "c \<in> set E \<union> set ''0.:;?!&''"
      unfolding body_def by (rule subsetD)
    with E_set
    have "c \<in> {CHR ''0''} \<union> set YEAR_CHARS \<union> set MONTHS \<union> set DAYS \<union> set HOURS \<union>
             set MINUTES \<union> set FIRST_CHAR \<union> set SECOND_CHAR \<union> set ''0.:;?!&''"
      by blast
    then show "c \<noteq> UTC_PLUS \<and> c \<noteq> UTC_MINUS" by (rule field_symbol_no_sign)
  qed
  have ptz: "parse_timezone (Some (body @ affix)) = Inr tzo"
  proof (cases tzo)
    case None
    then show ?thesis using parse_timezone_none [OF body_plain] by (simp add: affix_def)
  next
    case (Some t)
    with tzo obtain sg ds where t: "t = sg # ds" "sg = UTC_PLUS \<or> sg = UTC_MINUS"
      "\<forall>c \<in> set ds. c \<in> set TIMEZONE_DIGITS" "length ds = 2 \<or> length ds = 4"
      by auto
    from parse_timezone_affix [OF body_plain t(2) t(3) t(4)] Some t(1)
    show ?thesis by (simp add: affix_def)
  qed
  have part: "extract_datetime_part (Some (body @ affix)) = Inr (Some body)"
  proof (cases tzo)
    case None
    then have "affix = []" by (simp add: affix_def)
    with ptz None show ?thesis by (simp add: extract_datetime_part_def)
  next
    case (Some t)
    then have "affix = t" "t \<noteq> []" using affix_ne by (simp_all add: affix_def)
    with ptz Some show ?thesis by (simp add: extract_datetime_part_def py_slice_def)
  qed
  have E_valid: "list_all is_valid_encoded_char E"
    unfolding list_all_iff
  proof
    fix c assume "c \<in> set E"
    with E_set
    have "c \<in> {CHR ''0''} \<union> set YEAR_CHARS \<union> set MONTHS \<union> set DAYS \<union> set HOURS \<union>
             set MINUTES \<union> set FIRST_CHAR \<union> set SECOND_CHAR"
      by (rule subsetD)
    then show "is_valid_encoded_char c" by (rule field_symbol_valid)
  qed
  have E_len: "\<not> length E < 7" by (simp add: E_def)
  have f1: "decode_year_field E 0 = Inr (y, 3)" unfolding E_def by (rule ydec)
  have f2: "decode_symbol MONTHS E 3 = Inr (m, 3 + 1)"
    by (rule mdec) (simp_all add: E_def)
  have f3: "decode_day_field E 4 = Inr (d, 4 + 1)"
    by (rule ddec) (simp_all add: E_def)
  have f4: "decode_symbol HOURS E 5 = Inr (case ho of None \<Rightarrow> -1 | Some v \<Rightarrow> v, 5 + 1)"
    by (rule hdec) (simp_all add: E_def)
  have f5: "decode_symbol MINUTES E 6 = Inr (case mio of None \<Rightarrow> -1 | Some v \<Rightarrow> v, 6 + 1)"
    by (rule midec) (simp_all add: E_def)
  have f6: "decode_symbol MINUTES E 7 = Inr (case so of None \<Rightarrow> -1 | Some v \<Rightarrow> v, 7 + 1)"
    by (rule sdec) (simp_all add: E_def)
  have f7: "decode_millis_field E 8
              = Inr (case mso of None \<Rightarrow> 0 | Some v \<Rightarrow> v, 8 + length msc)"
  proof -
    have pre: "length [y0, y1, y2, mc, dc, hc, mic, sc] = 8" by simp
    have "decode_millis_field ([y0, y1, y2, mc, dc, hc, mic, sc] @ msc) 8
              = Inr (case mso of None \<Rightarrow> 0 | Some v \<Rightarrow> v, 8 + length msc)"
      using msdec [of "[y0, y1, y2, mc, dc, hc, mic, sc]"] unfolding pre .
    then show ?thesis by (simp add: E_def)
  qed
  have ynot: "y \<noteq> -1" using y by simp
  have az: "absent_as_zero y = y" "absent_as_zero m = m" "absent_as_zero d = d"
    using y m d by (simp_all add: absent_as_zero_def)
  have azms: "absent_as_zero (case mso of None \<Rightarrow> 0 | Some v \<Rightarrow> v)
                = (case mso of None \<Rightarrow> 0 | Some v \<Rightarrow> v)"
    using mso by (cases mso) (auto simp: absent_as_zero_def)
  have fields: "decode_fields E tzo
           = Inr (from_primitives y m d
                   (case ho of None \<Rightarrow> 0 | Some v \<Rightarrow> v)
                   (case mio of None \<Rightarrow> 0 | Some v \<Rightarrow> v)
                   (case so of None \<Rightarrow> 0 | Some v \<Rightarrow> v)
                   (case mso of None \<Rightarrow> 0 | Some v \<Rightarrow> v) tzo)"
    using f1 f2 f3 f4 f5 f6 f7 ynot
    by (simp add: decode_fields_def az azms absent_as_zero_field [OF ho]
        absent_as_zero_field [OF mio] absent_as_zero_field [OF so])
  have hd0: "py_index body 0 = Inr y0"
    using py_index_nat [of 0 body] body_ne body_hd by simp
  have "decode_body (Some (body @ affix))
           = Inr (from_primitives y m d
                   (case ho of None \<Rightarrow> 0 | Some v \<Rightarrow> v)
                   (case mio of None \<Rightarrow> 0 | Some v \<Rightarrow> v)
                   (case so of None \<Rightarrow> 0 | Some v \<Rightarrow> v)
                   (case mso of None \<Rightarrow> 0 | Some v \<Rightarrow> v) tzo)"
    using body_ne body_len E_len E_valid
    by (simp add: decode_body_def ptz part hd0 expand fields)
  then show ?thesis by (simp add: enc decode_def)
qed

section \<open>The accessors of a value built from valid components\<close>

lemma field_extract:
  fixes q v r :: int
  assumes "0 \<le> v" "v < 2 ^ w" "0 \<le> r" "r < 2 ^ k"
  shows "drop_bit k (((q * 2 ^ w + v) * 2 ^ k + r) AND push_bit k (mask w)) = v"
proof -
  have "drop_bit k (((q * 2 ^ w + v) * 2 ^ k + r) AND push_bit k (mask w))
          = take_bit w (drop_bit k ((q * 2 ^ w + v) * 2 ^ k + r))"
    by (auto simp add: bit_eq_iff bit_simps)
  also have "drop_bit k ((q * 2 ^ w + v) * 2 ^ k + r) = q * 2 ^ w + v"
    using assms(3,4) by (simp add: drop_bit_eq_div div_pos_pos_trivial)
  also have "take_bit w (q * 2 ^ w + v) = v"
    using assms(1,2) by (simp add: take_bit_eq_mod mod_pos_pos_trivial)
  finally show ?thesis .
qed

lemma masks_as_fields:
  "YEAR_MASK = push_bit 44 (mask 20)" "MONTH_MASK = push_bit 40 (mask 4)"
  "DAY_MASK = push_bit 35 (mask 5)" "HOUR_MASK = push_bit 30 (mask 5)"
  "MINUTE_MASK = push_bit 24 (mask 6)" "SECOND_MASK = push_bit 18 (mask 6)"
  "MILLIS_MASK = push_bit 8 (mask 10)"
  by (simp_all add: YEAR_MASK_def MONTH_MASK_def DAY_MASK_def HOUR_MASK_def MINUTE_MASK_def
      SECOND_MASK_def MILLIS_MASK_def mask_eq_exp_minus_1 push_bit_eq_mult)

lemma packed_fields:
  assumes v: "valid_components y m d h mi s ms"
    and P: "P = packed_value (from_primitives y m d h mi s ms tz)"
  shows "drop_bit 44 (P AND YEAR_MASK) = y" "drop_bit 40 (P AND MONTH_MASK) = m"
    "drop_bit 35 (P AND DAY_MASK) = d" "drop_bit 30 (P AND HOUR_MASK) = h"
    "drop_bit 24 (P AND MINUTE_MASK) = mi" "drop_bit 18 (P AND SECOND_MASK) = s"
    "drop_bit 8 (P AND MILLIS_MASK) = ms"
proof -
  define t where "t = determine_date_type y m d h mi s ms"
  have t: "0 \<le> t" "t < 2 ^ 8"
    using date_type_range [of y m d h mi s ms] by (simp_all add: t_def)
  note w = valid_components_widths [OF v]
  define a where "a = ms * 2 ^ 8 + t"
  define b where "b = s * 2 ^ 18 + a"
  define c where "c = mi * 2 ^ 24 + b"
  define e where "e = h * 2 ^ 30 + c"
  define f where "f = d * 2 ^ 35 + e"
  define g where "g = m * 2 ^ 40 + f"
  have a: "0 \<le> a" "a < 2 ^ 18" using w t by (simp_all add: a_def)
  have b: "0 \<le> b" "b < 2 ^ 24" using w a by (simp_all add: b_def)
  have c: "0 \<le> c" "c < 2 ^ 30" using w b by (simp_all add: c_def)
  have e: "0 \<le> e" "e < 2 ^ 35" using w c by (simp_all add: e_def)
  have f: "0 \<le> f" "f < 2 ^ 40" using w e by (simp_all add: f_def)
  have g: "0 \<le> g" "g < 2 ^ 44" using w f by (simp_all add: g_def)
  have p: "P = y * 2 ^ 44 + g"
    unfolding P g_def f_def e_def c_def b_def a_def t_def
    by (rule packed_value_sum) (use w in simp_all)
  have py: "P = (0 * 2 ^ 20 + y) * 2 ^ 44 + g" by (simp add: p)
  have pm: "P = (y * 2 ^ 4 + m) * 2 ^ 40 + f"
    by (simp add: p g_def algebra_simps)
  have pd: "P = ((y * 2 ^ 4 + m) * 2 ^ 5 + d) * 2 ^ 35 + e"
    by (simp add: p g_def f_def algebra_simps)
  have ph: "P = (((y * 2 ^ 4 + m) * 2 ^ 5 + d) * 2 ^ 5 + h) * 2 ^ 30 + c"
    by (simp add: p g_def f_def e_def algebra_simps)
  have pmi: "P = ((((y * 2 ^ 4 + m) * 2 ^ 5 + d) * 2 ^ 5 + h) * 2 ^ 6 + mi) * 2 ^ 24 + b"
    by (simp add: p g_def f_def e_def c_def algebra_simps)
  have ps: "P = (((((y * 2 ^ 4 + m) * 2 ^ 5 + d) * 2 ^ 5 + h) * 2 ^ 6 + mi) * 2 ^ 6 + s)
                  * 2 ^ 18 + a"
    by (simp add: p g_def f_def e_def c_def b_def algebra_simps)
  have pms: "P = ((((((y * 2 ^ 4 + m) * 2 ^ 5 + d) * 2 ^ 5 + h) * 2 ^ 6 + mi) * 2 ^ 6 + s)
                  * 2 ^ 10 + ms) * 2 ^ 8 + t"
    by (simp add: p g_def f_def e_def c_def b_def a_def algebra_simps)
  show "drop_bit 44 (P AND YEAR_MASK) = y"
    unfolding masks_as_fields by (subst py, rule field_extract) (use w g in simp_all)
  show "drop_bit 40 (P AND MONTH_MASK) = m"
    unfolding masks_as_fields by (subst pm, rule field_extract) (use w f in simp_all)
  show "drop_bit 35 (P AND DAY_MASK) = d"
    unfolding masks_as_fields by (subst pd, rule field_extract) (use w e in simp_all)
  show "drop_bit 30 (P AND HOUR_MASK) = h"
    unfolding masks_as_fields by (subst ph, rule field_extract) (use w c in simp_all)
  show "drop_bit 24 (P AND MINUTE_MASK) = mi"
    unfolding masks_as_fields by (subst pmi, rule field_extract) (use w b in simp_all)
  show "drop_bit 18 (P AND SECOND_MASK) = s"
    unfolding masks_as_fields by (subst ps, rule field_extract) (use w a in simp_all)
  show "drop_bit 8 (P AND MILLIS_MASK) = ms"
    unfolding masks_as_fields by (subst pms, rule field_extract) (use w t in simp_all)
qed

lemma round_trip_timezone_facts:
  "\<forall>tz \<in> set round_trip_timezones.
     format_timezone_offset (parse_timezone_offset tz)
       = (if tz = Some ''+00'' then None else tz) \<and>
     parse_timezone_offset (format_timezone_offset (parse_timezone_offset tz))
       = parse_timezone_offset tz"
  by code_simp

lemma round_trip_timezone_shape:
  assumes "tz \<in> set round_trip_timezones"
  shows "case (if tz = Some ''+00'' then None else tz) of
           None \<Rightarrow> True
         | Some t \<Rightarrow> \<exists>sg ds. t = sg # ds \<and> (sg = UTC_PLUS \<or> sg = UTC_MINUS) \<and>
                      (\<forall>c \<in> set ds. c \<in> set TIMEZONE_DIGITS) \<and>
                      (length ds = 2 \<or> length ds = 4)"
  using assms
  by (auto simp: round_trip_timezones_def UTC_PLUS_def UTC_MINUS_def TIMEZONE_DIGITS_def)

section \<open>Round trip of encode and decode\<close>

lemma date_type_of_primitives:
  assumes "valid_components y m d h mi s ms"
  shows "determine_date_type y m d h mi s ms =
           (if h = 0 \<and> mi = 0 \<and> s = 0 \<and> ms = 0 then TYPE_DATE_ONLY
            else if mi = 0 \<and> s = 0 \<and> ms = 0 then TYPE_DATE_HOUR
            else TYPE_FULL)"
  using assms by (auto simp: determine_date_type_def valid_components_def)

lemma accessors_of_primitives:
  assumes v: "valid_components y m d h mi s ms"
  shows "get_year (from_primitives y m d h mi s ms tz) = y"
    and "get_month (from_primitives y m d h mi s ms tz) = m"
    and "get_day (from_primitives y m d h mi s ms tz) = d"
    and "get_hour (from_primitives y m d h mi s ms tz)
           = (if h = 0 \<and> mi = 0 \<and> s = 0 \<and> ms = 0 then -1 else h)"
    and "get_minute (from_primitives y m d h mi s ms tz)
           = (if h = 0 \<and> mi = 0 \<and> s = 0 \<and> ms = 0 then -1 else mi)"
    and "get_second (from_primitives y m d h mi s ms tz)
           = (if h = 0 \<and> mi = 0 \<and> s = 0 \<and> ms = 0 then -1 else s)"
    and "get_millis (from_primitives y m d h mi s ms tz)
           = (if h = 0 \<and> mi = 0 \<and> s = 0 \<and> ms = 0 then -1 else ms)"
    and "get_date_type (from_primitives y m d h mi s ms tz)
           = (if h = 0 \<and> mi = 0 \<and> s = 0 \<and> ms = 0 then TYPE_DATE_ONLY
              else if mi = 0 \<and> s = 0 \<and> ms = 0 then TYPE_DATE_HOUR
              else TYPE_FULL)"
proof -
  define x where "x = from_primitives y m d h mi s ms tz"
  have dt: "date_type x = (if h = 0 \<and> mi = 0 \<and> s = 0 \<and> ms = 0 then TYPE_DATE_ONLY
              else if mi = 0 \<and> s = 0 \<and> ms = 0 then TYPE_DATE_HOUR
              else TYPE_FULL)"
    by (simp add: x_def from_primitives_def Let_def date_type_of_primitives [OF v])
  note pf = packed_fields [OF v x_def [THEN arg_cong [of _ _ packed_value]]]
  note types = TYPE_EMPTY_def TYPE_FULL_def TYPE_DATE_ONLY_def TYPE_TIME_ONLY_def
    TYPE_DATE_HOUR_def
  show "get_year (from_primitives y m d h mi s ms tz) = y"
    unfolding x_def [symmetric] get_year_def pf by (simp add: dt types)
  show "get_month (from_primitives y m d h mi s ms tz) = m"
    unfolding x_def [symmetric] get_month_def pf by (simp add: dt types)
  show "get_day (from_primitives y m d h mi s ms tz) = d"
    unfolding x_def [symmetric] get_day_def pf by (simp add: dt types)
  show "get_hour (from_primitives y m d h mi s ms tz)
           = (if h = 0 \<and> mi = 0 \<and> s = 0 \<and> ms = 0 then -1 else h)"
    unfolding x_def [symmetric] get_hour_def pf by (simp add: dt types)
  show "get_minute (from_primitives y m d h mi s ms tz)
           = (if h = 0 \<and> mi = 0 \<and> s = 0 \<and> ms = 0 then -1 else mi)"
    unfolding x_def [symmetric] get_minute_def pf by (simp add: dt types)
  show "get_second (from_primitives y m d h mi s ms tz)
           = (if h = 0 \<and> mi = 0 \<and> s = 0 \<and> ms = 0 then -1 else s)"
    unfolding x_def [symmetric] get_second_def pf by (simp add: dt types)
  show "get_millis (from_primitives y m d h mi s ms tz)
           = (if h = 0 \<and> mi = 0 \<and> s = 0 \<and> ms = 0 then -1 else ms)"
    unfolding x_def [symmetric] get_millis_def pf by (simp add: dt types)
  show "get_date_type (from_primitives y m d h mi s ms tz)
           = (if h = 0 \<and> mi = 0 \<and> s = 0 \<and> ms = 0 then TYPE_DATE_ONLY
              else if mi = 0 \<and> s = 0 \<and> ms = 0 then TYPE_DATE_HOUR
              else TYPE_FULL)"
    unfolding x_def [symmetric] by (simp add: get_date_type_def dt)
qed

lemma encode_of_primitives:
  assumes v: "valid_components y m d h mi s ms"
  shows "encode (from_primitives y m d h mi s ms tz) =
           encode_date_time (Some y) (Some m) (Some d)
             (if h = 0 \<and> mi = 0 \<and> s = 0 \<and> ms = 0 then None else Some h)
             (if mi = 0 \<and> s = 0 \<and> ms = 0 then None else Some mi)
             (if mi = 0 \<and> s = 0 \<and> ms = 0 then None else Some s)
             (if mi = 0 \<and> s = 0 \<and> ms = 0 then None else Some ms)
             (get_timezone (from_primitives y m d h mi s ms tz))"
proof -
  define x where "x = from_primitives y m d h mi s ms tz"
  note acc = accessors_of_primitives [OF v, of tz, folded x_def]
  note types = TYPE_EMPTY_def TYPE_FULL_def TYPE_DATE_ONLY_def TYPE_TIME_ONLY_def
    TYPE_DATE_HOUR_def
  have dt: "date_type x = (if h = 0 \<and> mi = 0 \<and> s = 0 \<and> ms = 0 then TYPE_DATE_ONLY
              else if mi = 0 \<and> s = 0 \<and> ms = 0 then TYPE_DATE_HOUR
              else TYPE_FULL)"
    using acc(8) by (simp add: get_date_type_def)
  have nn: "y \<noteq> -1" "m \<noteq> -1" "d \<noteq> -1" "h \<noteq> -1" "mi \<noteq> -1" "s \<noteq> -1" "ms \<noteq> -1"
    using v by (auto simp: valid_components_def)
  have "encode x =
           encode_date_time (Some y) (Some m) (Some d)
             (if h = 0 \<and> mi = 0 \<and> s = 0 \<and> ms = 0 then None else Some h)
             (if mi = 0 \<and> s = 0 \<and> ms = 0 then None else Some mi)
             (if mi = 0 \<and> s = 0 \<and> ms = 0 then None else Some s)
             (if mi = 0 \<and> s = 0 \<and> ms = 0 then None else Some ms)
             (get_timezone x)"
    using nn
    by (simp add: encode_def is_empty_def Let_def acc(1-7) dt types none_if_absent_def)
  then show ?thesis by (simp only: x_def)
qed

lemma decode_encode_primitives:
  assumes v: "valid_components y m d h mi s ms" and tz: "tz \<in> set round_trip_timezones"
  shows "decode (Some (encode (from_primitives y m d h mi s ms tz)))
           = Inr (from_primitives y m d h mi s ms tz)"
    and "get_timezone (from_primitives y m d h mi s ms tz)
           = (if tz = Some ''+00'' then None else tz)"
proof -
  define x where "x = from_primitives y m d h mi s ms tz"
  define tzs where "tzs = (if tz = Some ''+00'' then None else tz)"
  have off: "timezone_offset x = parse_timezone_offset tz"
    by (simp add: x_def from_primitives_def Let_def)
  from round_trip_timezone_facts tz
  have fmt: "format_timezone_offset (parse_timezone_offset tz) = tzs"
    and again: "parse_timezone_offset (format_timezone_offset (parse_timezone_offset tz))
                 = parse_timezone_offset tz"
    unfolding tzs_def by blast+
  have gtz: "get_timezone x = tzs" by (simp add: get_timezone_def off fmt)
  then show "get_timezone (from_primitives y m d h mi s ms tz)
           = (if tz = Some ''+00'' then None else tz)"
    by (simp only: x_def tzs_def)
  have shape: "case tzs of
           None \<Rightarrow> True
         | Some t \<Rightarrow> \<exists>sg ds. t = sg # ds \<and> (sg = UTC_PLUS \<or> sg = UTC_MINUS) \<and>
                      (\<forall>c \<in> set ds. c \<in> set TIMEZONE_DIGITS) \<and>
                      (length ds = 2 \<or> length ds = 4)"
    unfolding tzs_def using tz by (rule round_trip_timezone_shape)
  define ho where "ho = (if h = 0 \<and> mi = 0 \<and> s = 0 \<and> ms = 0 then None else Some h)"
  define mio where "mio = (if mi = 0 \<and> s = 0 \<and> ms = 0 then None else Some mi)"
  define so where "so = (if mi = 0 \<and> s = 0 \<and> ms = 0 then None else Some s)"
  define mso where "mso = (if mi = 0 \<and> s = 0 \<and> ms = 0 then None else Some ms)"
  have enc: "encode x = encode_date_time (Some y) (Some m) (Some d) ho mio so mso tzs"
    unfolding x_def ho_def mio_def so_def mso_def gtz [symmetric, unfolded x_def]
    by (rule encode_of_primitives [OF v])
  have r: "0 \<le> y" "y \<le> 226980" "0 \<le> m" "m \<le> 11" "1 \<le> d" "d \<le> 31"
    "case ho of None \<Rightarrow> True | Some v \<Rightarrow> 0 \<le> v \<and> v \<le> 23"
    "case mio of None \<Rightarrow> True | Some v \<Rightarrow> 0 \<le> v \<and> v \<le> 59"
    "case so of None \<Rightarrow> True | Some v \<Rightarrow> 0 \<le> v \<and> v \<le> 59"
    "case mso of None \<Rightarrow> True | Some v \<Rightarrow> 0 \<le> v \<and> v \<le> 999"
    using v by (simp_all add: valid_components_def ho_def mio_def so_def mso_def)
  have read_back: "(case ho of None \<Rightarrow> 0 | Some v \<Rightarrow> v) = h"
    "(case mio of None \<Rightarrow> 0 | Some v \<Rightarrow> v) = mi"
    "(case so of None \<Rightarrow> 0 | Some v \<Rightarrow> v) = s"
    "(case mso of None \<Rightarrow> 0 | Some v \<Rightarrow> v) = ms"
    by (simp_all add: ho_def mio_def so_def mso_def)
  have "decode (Some (encode x)) = Inr (from_primitives y m d h mi s ms tzs)"
    unfolding enc
    using decode_encode_date_time [OF r shape] by (simp only: read_back)
  also have "from_primitives y m d h mi s ms tzs = x"
    by (simp add: x_def from_primitives_def Let_def fmt [symmetric] again)
  finally show "decode (Some (encode (from_primitives y m d h mi s ms tz)))
           = Inr (from_primitives y m d h mi s ms tz)"
    by (simp only: x_def)
qed

text \<open>
  Claim C1.  For every valid component tuple and every timezone among absent, \<open>+00\<close>,
  \<open>-08\<close>, \<open>+0530\<close> and \<open>+12\<close>, decoding the encoding of the value \<open>x\<close> built from those
  primitives gives a value with the accessors of \<open>x\<close>: year, month, day, hour, minute,
  second, millisecond, timezone and date type; it is \<open>x\<close> itself.  The timezone accessor
  of \<open>x\<close> is the given timezone, except that \<open>+00\<close> reads back as absent; year, month and
  day read back as given.
\<close>

theorem decode_encode_round_trip:
  assumes "valid_components year month day hour minute second millis"
    and "tz \<in> set round_trip_timezones"
  shows "let x = from_primitives year month day hour minute second millis tz
         in \<exists>x'. decode (Some (encode x)) = Inr x' \<and>
                 get_year x' = get_year x \<and> get_month x' = get_month x \<and>
                 get_day x' = get_day x \<and> get_hour x' = get_hour x \<and>
                 get_minute x' = get_minute x \<and> get_second x' = get_second x \<and>
                 get_millis x' = get_millis x \<and> get_timezone x' = get_timezone x \<and>
                 get_date_type x' = get_date_type x \<and> x' = x \<and>
                 get_timezone x = (if tz = Some ''+00'' then None else tz) \<and>
                 get_year x = year \<and> get_month x = month \<and> get_day x = day"
  using decode_encode_primitives [OF assms] accessors_of_primitives(1-3) [OF assms(1), of tz]
  by (simp add: Let_def)

theorem decode_encode_round_trip_witness:
  "valid_components 52024 5 15 12 30 45 123 \<and>
   Some ''+0530'' \<in> set round_trip_timezones \<and>
   (let x = from_primitives 52024 5 15 12 30 45 123 (Some ''+0530'')
    in \<exists>x'. decode (Some (encode x)) = Inr x' \<and>
            get_year x' = get_year x \<and> get_month x' = get_month x \<and>
            get_day x' = get_day x \<and> get_hour x' = get_hour x \<and>
            get_minute x' = get_minute x \<and> get_second x' = get_second x \<and>
            get_millis x' = get_millis x \<and> get_timezone x' = get_timezone x \<and>
            get_date_type x' = get_date_type x \<and> x' = x \<and>
            get_timezone x = (if Some ''+0530'' = Some ''+00'' then None else Some ''+0530'') \<and>
            get_year x = 52024 \<and> get_month x = 5 \<and> get_day x = 15)"
proof -
  have v: "valid_components 52024 5 15 12 30 45 123"
    by (simp add: valid_components_def)
  have t: "Some ''+0530'' \<in> set round_trip_timezones"
    by (simp add: round_trip_timezones_def)
  from v t decode_encode_round_trip [OF v t] show ?thesis by (intro conjI)
qed

end
